theory Spec2Isabelle
  imports Main "HOL-Library.Multiset" "HOL-Library.Sublist" "HOL-Library.Product_Lexorder"
begin

section \<open>Payload values\<close>

text \<open>
  The payload of a unit (\<open>data: any\<close>) is any JavaScript value: a primitive, a function
  or an object (arrays included). Objects are held in a store, so that an object may refer
  to itself. Which number a \<open>JNum\<close> is plays no part below; a symbol or a bigint behaves as
  the primitives listed here do.
\<close>

type_synonym addr = nat

type_synonym fid = nat

datatype jsval = JUndefined | JNull | JBool bool | JNum int | JStr string | JObj addr | JFun fid

text \<open>
  A property is a data property with its value, or an accessor with its getter (an
  accessor without getter reads as \<open>Data JUndefined\<close>).
\<close>

datatype property = Data jsval | Accessor fid

text \<open>
  What the prototype chain of an object holds under the name \<open>hasOwnProperty\<close>:
  \<open>Object.prototype.hasOwnProperty\<close>, as for an object literal, an array or the result of
  \<open>JSON.parse\<close>; nothing, as for \<open>Object.create(null)\<close>; or a property that a prototype
  nearer than \<open>Object.prototype\<close> defines under that name.
\<close>

datatype resolution = Builtin | Missing | Defined property

text \<open>
  Of an object, \<open>calculateComplexity\<close> sees the properties that \<open>for ... in\<close> enumerates,
  in its order: the own enumerable properties first, then the enumerable properties that
  the object inherits and does not shadow; and what the prototype chain holds under the
  name \<open>hasOwnProperty\<close>.
\<close>

record jsobject =
  ownProperties :: "(string \<times> property) list"
  inheritedProperties :: "(string \<times> property) list"
  inheritedHasOwnProperty :: resolution

text \<open>
  A throw is the \<open>TypeError\<close> of the language for a call of what is not a function, or
  whatever a function of the payload throws.
\<close>

datatype thrown = TypeError | Thrown jsval

text \<open>
  The store holds the objects, and for the functions of the payload what a call gives:
  \<open>getters h g obj\<close> is what the getter \<open>g\<close> returns or throws when a property is read on
  \<open>obj\<close>, and \<open>tests h f obj key\<close> is what \<open>f.call(obj, key)\<close> gives in the condition of
  an \<open>if\<close>: \<open>Inr True\<close> for a truthy value, \<open>Inr False\<close> for a falsy one, or the throw. A
  function of the payload is taken to return or throw, the same at every call, and to
  leave the store as it is; a proxy is not a payload of this model.
\<close>

record heap =
  objects :: "addr \<Rightarrow> jsobject"
  getters :: "fid \<Rightarrow> addr \<Rightarrow> thrown + jsval"
  tests :: "fid \<Rightarrow> addr \<Rightarrow> string \<Rightarrow> thrown + bool"

text \<open>The properties that \<open>for (const key in obj)\<close> goes through.\<close>

definition enumerated :: "jsobject \<Rightarrow> (string \<times> property) list" where
  "enumerated ob = ownProperties ob @ inheritedProperties ob"

text \<open>A read \<open>obj[key]\<close> of a property of \<open>obj\<close>: the value, or what the getter gives.\<close>

definition getProperty :: "heap \<Rightarrow> addr \<Rightarrow> property \<Rightarrow> thrown + jsval" where
  "getProperty h obj p =
     (case p of
        Data v \<Rightarrow> Inr v
      | Accessor g \<Rightarrow> getters h g obj)"

text \<open>
  The lookup of \<open>obj.hasOwnProperty\<close>: an own property of that name comes first and
  shadows the prototype chain.
\<close>

definition lookupHasOwnProperty :: "jsobject \<Rightarrow> resolution" where
  "lookupHasOwnProperty ob =
     (case map_of (ownProperties ob) ''hasOwnProperty'' of
        Some p \<Rightarrow> Defined p
      | None \<Rightarrow> inheritedHasOwnProperty ob)"

text \<open>
  The call \<open>obj.hasOwnProperty(key)\<close>. The method of \<open>Object.prototype\<close> answers whether
  \<open>key\<close> is an own property. When the lookup finds nothing, the call is a call of
  \<open>undefined\<close> and throws a \<open>TypeError\<close>. When it finds a property of the payload, that
  property is read and its value called: a function of the payload answers in place of the
  method, any other value is not callable and the call throws a \<open>TypeError\<close>.
\<close>

definition hasOwnProperty :: "heap \<Rightarrow> addr \<Rightarrow> string \<Rightarrow> thrown + bool" where
  "hasOwnProperty h obj key =
     (case lookupHasOwnProperty (objects h obj) of
        Builtin \<Rightarrow> Inr (key \<in> set (map fst (ownProperties (objects h obj))))
      | Missing \<Rightarrow> Inl TypeError
      | Defined p \<Rightarrow>
          (case getProperty h obj p of
             Inl e \<Rightarrow> Inl e
           | Inr (JFun f) \<Rightarrow> tests h f obj key
           | Inr _ \<Rightarrow> Inl TypeError))"

text \<open>
  \<open>traverse(obj, depth)\<close> of \<open>calculateComplexity\<close>. The counter \<open>complexity\<close> of the
  enclosing function is passed in and returned; a throw ends the loop and every caller.
  \<open>typeof obj[key] === 'object' && obj[key] !== null\<close> holds of the objects only: \<open>null\<close>
  is excluded and the \<open>typeof\<close> of a function is \<open>'function'\<close>.
\<close>

function traverse :: "heap \<Rightarrow> addr \<Rightarrow> nat \<Rightarrow> int \<Rightarrow> thrown + int" where
  "traverse h obj depth complexity =
     (if depth > 5 then Inr complexity
      else fold (\<lambda>kv acc.
                   case acc of
                     Inl e \<Rightarrow> Inl e
                   | Inr c \<Rightarrow>
                       (case hasOwnProperty h obj (fst kv) of
                          Inl e \<Rightarrow> Inl e
                        | Inr False \<Rightarrow> Inr c
                        | Inr True \<Rightarrow>
                            (case getProperty h obj (snd kv) of
                               Inl e \<Rightarrow> Inl e
                             | Inr (JObj child) \<Rightarrow> traverse h child (depth + 1) (c + 1)
                             | Inr _ \<Rightarrow> Inr (c + 1))))
                (enumerated (objects h obj)) (Inr complexity))"
  by pat_completeness auto
termination
  by (relation "measure (\<lambda>(h, obj, depth, complexity). 6 - depth)") auto

declare traverse.simps [simp del]

text \<open>
  \<open>calculateComplexity(data)\<close>: 0 when \<open>typeof data !== 'object' || data === null\<close>, which
  is every value but an object; the count of \<open>traverse(data)\<close> otherwise.
\<close>

definition calculateComplexity :: "heap \<Rightarrow> jsval \<Rightarrow> thrown + int" where
  "calculateComplexity h data =
     (case data of
        JObj obj \<Rightarrow> traverse h obj 0 0
      | _ \<Rightarrow> Inr 0)"

section \<open>The rate-limited queue\<close>

record config =
  requestsPerSecond :: int
  maxQueueSize :: int
  priorityLevels :: int

text \<open>
  A \<open>QueueItem\<close>. Its \<open>callback\<close> and \<open>errorCallback\<close> are the \<open>resolve\<close> and \<open>reject\<close>
  of the promise that the \<open>enqueue\<close> call created; the field \<open>promise\<close> names that promise
  by the number of the \<open>enqueue\<close> call; \<open>resolve\<close> and \<open>reject\<close> never throw.
  Priorities, like the three numbers of the configuration, are integers, as the interface
  of the specification has them (\<open>priority: int\<close>).
\<close>

record QueueItem =
  itemId :: string
  priority :: int
  timestamp :: int
  payload :: jsval
  promise :: nat

text \<open>
  The errors an \<open>errorCallback\<close> receives: \<open>Error('Queue is full. Cannot add more items.')\<close>,
  \<open>Error('Queue cleared')\<close>, or whatever \<open>analyzeItem\<close> threw. The queue reads neither the
  result of an analysis nor what it threw; a string stands for each.
\<close>

datatype js_error = QueueFullError | QueueClearedError | WorkError string

datatype settlement = Resolved string | Rejected js_error

text \<open>
  An activation of \<open>processQueue\<close> that got past its guard is suspended at one of its two
  \<open>await\<close>s, or has returned.
\<close>

datatype suspension = AwaitSleep | AwaitWork QueueItem | Returned

text \<open>
  The fields of \<open>RateLimitedAnalyzer\<close>, followed by what the event loop holds for it
  (the suspended activations of \<open>processQueue\<close>, the pending \<open>setTimeout\<close> rejections,
  the number of promises created) and by two observation logs: every call of a
  \<open>callback\<close> or \<open>errorCallback\<close>, and every unit shifted off the queue to be executed,
  stamped with the rate window (\<open>lastResetTime\<close>) it starts in.
\<close>

record state =
  queue :: "QueueItem list"
  processing :: bool
  requestCount :: int
  lastResetTime :: int
  pendingCount :: int
  loops :: "suspension list"
  rejectTimers :: "nat list"
  promises :: nat
  calls :: "(nat \<times> settlement) list"
  started :: "(nat \<times> int) list"

definition initial :: "int \<Rightarrow> state" where
  "initial t0 =
     \<lparr>queue = [], processing = False, requestCount = 0, lastResetTime = t0,
      pendingCount = 0, loops = [], rejectTimers = [], promises = 0, calls = [],
      started = []\<rparr>"

definition clampPriority :: "config \<Rightarrow> int \<Rightarrow> int" where
  "clampPriority cfg p = max 0 (min p (priorityLevels cfg - 1))"

fun insertByPriority :: "QueueItem \<Rightarrow> QueueItem list \<Rightarrow> QueueItem list" where
  "insertByPriority item [] = [item]"
| "insertByPriority item (q # qs) =
     (if priority item > priority q then item # q # qs
      else q # insertByPriority item qs)"

text \<open>
  The \<open>while\<close> loop of \<open>processQueue\<close>, from the test of its condition to the next
  \<open>await\<close> or to the \<open>finally\<close> that ends it. Every pass through the body ends in an
  \<open>await\<close>, so one synchronous run is one pass.
\<close>

definition drainLoop :: "config \<Rightarrow> int \<Rightarrow> state \<Rightarrow> state \<times> suspension" where
  "drainLoop cfg now s =
     (case queue s of
        [] \<Rightarrow> (s\<lparr>processing := False\<rparr>, Returned)
      | item # rest \<Rightarrow>
          (let s1 = (if now - lastResetTime s \<ge> 1000
                     then s\<lparr>requestCount := 0, lastResetTime := now\<rparr> else s)
           in if requestCount s1 \<ge> requestsPerSecond cfg
                 \<and> 1000 - (now - lastResetTime s1) > 0
              then (s1, AwaitSleep)
              else (s1\<lparr>queue := rest,
                       requestCount := requestCount s1 + 1,
                       started := started s1 @ [(promise item, lastResetTime s1)]\<rparr>,
                    AwaitWork item)))"

definition processQueue :: "config \<Rightarrow> int \<Rightarrow> state \<Rightarrow> state" where
  "processQueue cfg now s =
     (if processing s \<or> queue s = [] then s
      else (case drainLoop cfg now (s\<lparr>processing := True\<rparr>) of
              (s', k) \<Rightarrow> s'\<lparr>loops := loops s' @ [k]\<rparr>))"

text \<open>
  \<open>enqueue(data, priority, id)\<close>; \<open>generated\<close> is what \<open>generateId()\<close> would return and
  \<open>now\<close> what \<open>Date.now()\<close> returns during the call.
\<close>

definition enqueue ::
  "config \<Rightarrow> int \<Rightarrow> jsval \<Rightarrow> int \<Rightarrow> string option \<Rightarrow> string \<Rightarrow> state \<Rightarrow> state" where
  "enqueue cfg now dat prio ident generated s =
     (if pendingCount s \<ge> maxQueueSize cfg
      then s\<lparr>rejectTimers := rejectTimers s @ [promises s], promises := Suc (promises s)\<rparr>
      else
        (let item = \<lparr>itemId = (case ident of
                                  None \<Rightarrow> generated
                                | Some i \<Rightarrow> if i = [] then generated else i),
                      priority = clampPriority cfg prio,
                      timestamp = now,
                      payload = dat,
                      promise = promises s\<rparr>;
             s1 = s\<lparr>queue := insertByPriority item (queue s), promises := Suc (promises s)\<rparr>;
             s2 = s1\<lparr>pendingCount := pendingCount s1 + 1\<rparr>
         in processQueue cfg now s2))"

definition clear :: "state \<Rightarrow> state" where
  "clear s =
     s\<lparr>calls := calls s @ map (\<lambda>item. (promise item, Rejected QueueClearedError)) (queue s),
       queue := [],
       processing := False,
       pendingCount := 0\<rparr>"

text \<open>The callback of the \<open>setTimeout(..., 0)\<close> that \<open>enqueue\<close> set for a refused unit.\<close>

definition rejectTimerFires :: "nat \<Rightarrow> state \<Rightarrow> state" where
  "rejectTimerFires p s =
     (if p \<in> set (rejectTimers s)
      then s\<lparr>rejectTimers := remove1 p (rejectTimers s),
             calls := calls s @ [(p, Rejected QueueFullError)]\<rparr>
      else s)"

text \<open>The activation \<open>i\<close> returns from \<open>await this.sleep(waitTime)\<close> and continues.\<close>

definition sleepElapsed :: "config \<Rightarrow> int \<Rightarrow> nat \<Rightarrow> state \<Rightarrow> state" where
  "sleepElapsed cfg now i s =
     (if i < length (loops s) \<and> loops s ! i = AwaitSleep
      then (case drainLoop cfg now s of (s', k) \<Rightarrow> s'\<lparr>loops := (loops s')[i := k]\<rparr>)
      else s)"

text \<open>
  The activation \<open>i\<close> returns from \<open>await this.analyzeItem(item)\<close>, with a result (\<open>Inr\<close>)
  or a throw (\<open>Inl\<close>): the callback, the \<open>finally\<close>, then the loop again.
\<close>

definition workSettled :: "config \<Rightarrow> int \<Rightarrow> nat \<Rightarrow> string + string \<Rightarrow> state \<Rightarrow> state" where
  "workSettled cfg now i outcome s =
     (if i < length (loops s)
      then (case loops s ! i of
              AwaitWork item \<Rightarrow>
                (let s1 = s\<lparr>calls := calls s @
                             [(promise item,
                               case outcome of
                                 Inr result \<Rightarrow> Resolved result
                               | Inl err \<Rightarrow> Rejected (WorkError err))]\<rparr>;
                     s2 = s1\<lparr>pendingCount := pendingCount s1 - 1\<rparr>
                 in case drainLoop cfg now s2 of
                      (s3, k) \<Rightarrow> s3\<lparr>loops := (loops s3)[i := k]\<rparr>)
            | _ \<Rightarrow> s)
      else s)"

datatype event =
    Enqueue int jsval int "string option" string
  | Clear
  | RejectTimerFires nat
  | SleepElapsed int nat
  | WorkSettled int nat "string + string"

text \<open>An event that cannot happen in a state (no such timer, no such activation) changes nothing.\<close>

fun step :: "config \<Rightarrow> state \<Rightarrow> event \<Rightarrow> state" where
  "step cfg s (Enqueue now dat prio ident generated) = enqueue cfg now dat prio ident generated s"
| "step cfg s Clear = clear s"
| "step cfg s (RejectTimerFires p) = rejectTimerFires p s"
| "step cfg s (SleepElapsed now i) = sleepElapsed cfg now i s"
| "step cfg s (WorkSettled now i outcome) = workSettled cfg now i outcome s"

fun run :: "config \<Rightarrow> state \<Rightarrow> event list \<Rightarrow> state" where
  "run cfg s [] = s"
| "run cfg s (e # es) = run cfg (step cfg s e) es"

section \<open>Observations on a state\<close>

text \<open>
  Where a promise that is not settled yet can be: the queue holds its item, an activation
  of \<open>processQueue\<close> awaits its analysis (\<open>inFlight\<close>), or a timer holds its rejection.
  \<open>accounted\<close> collects the promises called so far and the promises that await.
\<close>

fun inFlight :: "suspension \<Rightarrow> nat list" where
  "inFlight (AwaitWork item) = [promise item]"
| "inFlight AwaitSleep = []"
| "inFlight Returned = []"

definition accounted :: "state \<Rightarrow> nat multiset" where
  "accounted s =
     mset (map fst (calls s)) + mset (map promise (queue s))
       + mset (concat (map inFlight (loops s))) + mset (rejectTimers s)"

definition awaiting :: "state \<Rightarrow> nat list" where
  "awaiting s = map promise (queue s) @ concat (map inFlight (loops s)) @ rejectTimers s"

text \<open>
  The activations of \<open>processQueue\<close> that have not returned, and the units in execution.
\<close>

definition liveLoops :: "state \<Rightarrow> nat" where
  "liveLoops s = length (filter (\<lambda>k. k \<noteq> Returned) (loops s))"

definition executing :: "state \<Rightarrow> nat" where
  "executing s = length (concat (map inFlight (loops s)))"

text \<open>
  \<open>clearedWhileDraining\<close>: somewhere in a run, \<open>clear()\<close> is called while an activation of
  \<open>processQueue\<close> has not returned. \<open>oneLoop\<close>: there is one such activation when
  \<open>processing\<close> is set and none when it is not.
\<close>

fun clearedWhileDraining :: "config \<Rightarrow> state \<Rightarrow> event list \<Rightarrow> bool" where
  "clearedWhileDraining cfg s [] = False"
| "clearedWhileDraining cfg s (e # es) =
     ((e = Clear \<and> 0 < liveLoops s) \<or> clearedWhileDraining cfg (step cfg s e) es)"

definition oneLoop :: "state \<Rightarrow> bool" where
  "oneLoop s \<longleftrightarrow> liveLoops s = (if processing s then 1 else 0)"

fun alive :: "suspension \<Rightarrow> nat" where
  "alive (AwaitWork item) = 1"
| "alive AwaitSleep = 1"
| "alive Returned = 0"

text \<open>
  \<open>tracked\<close>: the counter \<open>pendingCount\<close> is the number of units queued or in execution.
  \<open>clearedInFlight\<close>: somewhere in a run, \<open>clear()\<close> is called while a unit is in execution.
\<close>

definition tracked :: "state \<Rightarrow> bool" where
  "tracked s \<longleftrightarrow> pendingCount s = int (length (queue s)) + int (executing s)"

fun clearedInFlight :: "config \<Rightarrow> state \<Rightarrow> event list \<Rightarrow> bool" where
  "clearedInFlight cfg s [] = False"
| "clearedInFlight cfg s (e # es) =
     ((e = Clear \<and> 0 < executing s) \<or> clearedInFlight cfg (step cfg s e) es)"

text \<open>
  \<open>neverFull p\<close>: the promise \<open>p\<close> exists, no timer holds a queue-full rejection for it and
  none was delivered. \<open>settlesLoop i\<close>: the event is the settling of the analysis that the
  activation \<open>i\<close> awaits.
\<close>

definition neverFull :: "nat \<Rightarrow> state \<Rightarrow> bool" where
  "neverFull p s \<longleftrightarrow>
     p < promises s \<and> p \<notin> set (rejectTimers s) \<and> (p, Rejected QueueFullError) \<notin> set (calls s)"

definition settlesLoop :: "nat \<Rightarrow> event \<Rightarrow> bool" where
  "settlesLoop i e = (case e of WorkSettled now j outcome \<Rightarrow> j = i | _ \<Rightarrow> False)"

text \<open>
  The number of units that began execution in the rate window \<open>w\<close>, and what holds of the
  window counters in every state.
\<close>

definition windowStarts :: "state \<Rightarrow> int \<Rightarrow> nat" where
  "windowStarts s w = length (filter (\<lambda>e. snd e = w) (started s))"

definition rateInv :: "config \<Rightarrow> state \<Rightarrow> bool" where
  "rateInv cfg s \<longleftrightarrow>
     requestCount s = int (windowStarts s (lastResetTime s))
     \<and> (\<forall>e \<in> set (started s). snd e \<le> lastResetTime s)
     \<and> (\<forall>w. int (windowStarts s w) \<le> requestsPerSecond cfg)"

text \<open>
  The order of service: the units started so far, in the order they started, then the
  queue. No unit is in it twice.
\<close>

definition service :: "state \<Rightarrow> nat list" where
  "service s = map fst (started s) @ map promise (queue s)"

definition serviceInv :: "state \<Rightarrow> bool" where
  "serviceInv s \<longleftrightarrow> distinct (service s) \<and> (\<forall>p \<in> set (service s). p < promises s)"

text \<open>
  The order the queue keeps: a higher priority first, and within one priority the earlier
  \<open>enqueue\<close> call first. \<open>serviceKey\<close> states the same order as a lexicographic one.
\<close>

definition precedes :: "QueueItem \<Rightarrow> QueueItem \<Rightarrow> bool" where
  "precedes a b \<longleftrightarrow>
     priority b < priority a \<or> (priority a = priority b \<and> promise a < promise b)"

definition serviceKey :: "QueueItem \<Rightarrow> int \<times> nat" where
  "serviceKey item = (- priority item, promise item)"

definition queueInv :: "state \<Rightarrow> bool" where
  "queueInv s \<longleftrightarrow>
     sorted_wrt precedes (queue s) \<and> (\<forall>item \<in> set (queue s). promise item < promises s)"

text \<open>
  The \<open>item\<close> that an admitted \<open>enqueue\<close> creates.
\<close>

definition newItem ::
  "config \<Rightarrow> int \<Rightarrow> jsval \<Rightarrow> int \<Rightarrow> string option \<Rightarrow> string \<Rightarrow> state \<Rightarrow> QueueItem" where
  "newItem cfg now dat prio ident generated s =
     \<lparr>itemId = (case ident of None \<Rightarrow> generated | Some i \<Rightarrow> if i = [] then generated else i),
      priority = clampPriority cfg prio, timestamp = now, payload = dat, promise = promises s\<rparr>"

text \<open>
  The rate window lets a unit start at the time \<open>now\<close>: it has expired, or its limit is
  not reached.
\<close>

definition windowOpen :: "config \<Rightarrow> int \<Rightarrow> state \<Rightarrow> bool" where
  "windowOpen cfg now s \<longleftrightarrow> 1000 \<le> now - lastResetTime s \<or> requestCount s < requestsPerSecond cfg"

text \<open>
  The events that the event loop brings by itself (no submission, no \<open>clear()\<close>); a
  measure of what is left to do, which each of them can lower; and what keeps the loop
  going: while a unit is queued or \<open>processing\<close> is set, some activation has not returned.
\<close>

fun internal :: "event \<Rightarrow> bool" where
  "internal (Enqueue now dat prio ident generated) = False"
| "internal Clear = False"
| "internal (RejectTimerFires p) = True"
| "internal (SleepElapsed now i) = True"
| "internal (WorkSettled now i outcome) = True"

fun weight :: "suspension \<Rightarrow> nat" where
  "weight (AwaitWork item) = 2"
| "weight AwaitSleep = 1"
| "weight Returned = 0"

definition backlog :: "state \<Rightarrow> nat" where
  "backlog s = 3 * length (queue s) + sum_list (map weight (loops s)) + length (rejectTimers s)"

definition liveInv :: "state \<Rightarrow> bool" where
  "liveInv s \<longleftrightarrow> (queue s = [] \<and> \<not> processing s) \<or> list_ex (\<lambda>k. k \<noteq> Returned) (loops s)"

text \<open>
  \<open>visits b levels\<close>: the most properties \<open>traverse\<close> can count over \<open>levels\<close> levels of
  objects of which \<open>for ... in\<close> enumerates at most \<open>b\<close> properties each.
\<close>

fun visits :: "nat \<Rightarrow> nat \<Rightarrow> nat" where
  "visits b 0 = 0"
| "visits b (Suc levels) = b * (1 + visits b levels)"

text \<open>
  \<open>plain ob\<close>: the object reaches \<open>Object.prototype.hasOwnProperty\<close>, unshadowed, and every
  property enumerated on it is a data property. \<open>notCallable ob\<close>: what the lookup of
  \<open>ob.hasOwnProperty\<close> gives is not a function, because nothing is found or because a data
  property of that name holds another value.
\<close>

definition plain :: "jsobject \<Rightarrow> bool" where
  "plain ob \<longleftrightarrow> lookupHasOwnProperty ob = Builtin
     \<and> list_all (\<lambda>kv. case snd kv of Data v \<Rightarrow> True | Accessor g \<Rightarrow> False) (enumerated ob)"

definition notCallable :: "jsobject \<Rightarrow> bool" where
  "notCallable ob \<longleftrightarrow>
     (case lookupHasOwnProperty ob of
        Builtin \<Rightarrow> False
      | Missing \<Rightarrow> True
      | Defined p \<Rightarrow>
          (case p of
             Data v \<Rightarrow> (case v of JFun f \<Rightarrow> False | _ \<Rightarrow> True)
           | Accessor g \<Rightarrow> False))"

section \<open>Sample configurations and payloads\<close>

text \<open>
  The configuration of the test suite, one with capacity 1, one with a window limit of 2
  and one with a window limit of 1. Three stores without functions: in the first every
  object has one property, \<open>self\<close>, which is the object itself; in the second every
  object is \<open>{hasOwnProperty: 1}\<close>; in the third every object is an
  \<open>Object.create(null)\<close> that was given the property \<open>a: 1\<close>.
\<close>

definition cfgA :: config where
  "cfgA = \<lparr>requestsPerSecond = 5, maxQueueSize = 10, priorityLevels = 3\<rparr>"

definition cfgB :: config where
  "cfgB = \<lparr>requestsPerSecond = 5, maxQueueSize = 1, priorityLevels = 3\<rparr>"

definition cfgC :: config where
  "cfgC = \<lparr>requestsPerSecond = 2, maxQueueSize = 10, priorityLevels = 3\<rparr>"

definition cfgD :: config where
  "cfgD = \<lparr>requestsPerSecond = 1, maxQueueSize = 10, priorityLevels = 3\<rparr>"

definition heapOf :: "(addr \<Rightarrow> jsobject) \<Rightarrow> heap" where
  "heapOf obs = \<lparr>objects = obs, getters = (\<lambda>g obj. Inr JUndefined),
                 tests = (\<lambda>f obj key. Inr False)\<rparr>"

definition heapSelf :: heap where
  "heapSelf = heapOf (\<lambda>a. \<lparr>ownProperties = [(''self'', Data (JObj a))],
                            inheritedProperties = [], inheritedHasOwnProperty = Builtin\<rparr>)"

definition heapShadow :: heap where
  "heapShadow = heapOf (\<lambda>a. \<lparr>ownProperties = [(''hasOwnProperty'', Data (JNum 1))],
                              inheritedProperties = [], inheritedHasOwnProperty = Builtin\<rparr>)"

definition heapBare :: heap where
  "heapBare = heapOf (\<lambda>a. \<lparr>ownProperties = [(''a'', Data (JNum 1))],
                            inheritedProperties = [], inheritedHasOwnProperty = Missing\<rparr>)"

section \<open>Accounting of promises\<close>

lemma drainLoop_frame:
  "drainLoop cfg now s = (s', k) \<Longrightarrow>
     calls s' = calls s \<and> rejectTimers s' = rejectTimers s \<and> promises s' = promises s
     \<and> loops s' = loops s \<and> pendingCount s' = pendingCount s"
  by (auto simp: drainLoop_def Let_def split: list.splits if_splits)

lemma drainLoop_promises:
  "drainLoop cfg now s = (s', k) \<Longrightarrow>
     mset (map promise (queue s')) + mset (inFlight k) = mset (map promise (queue s))"
  by (auto simp: drainLoop_def Let_def split: list.splits if_splits)

lemma mset_inFlight_update:
  "i < length ks \<Longrightarrow>
     mset (concat (map inFlight (ks[i := k]))) + mset (inFlight (ks ! i))
       = mset (concat (map inFlight ks)) + mset (inFlight k)"
proof (induction ks arbitrary: i)
  case Nil
  then show ?case by simp
next
  case (Cons a ks)
  then show ?case by (cases i) (simp_all add: ac_simps)
qed

lemma accounted_initial: "accounted (initial t0) = mset [0..<promises (initial t0)]"
  by (simp add: accounted_def initial_def)

lemma accounted_processQueue:
  "accounted (processQueue cfg now s) = accounted s"
proof (cases "processing s \<or> queue s = []")
  case True
  then show ?thesis by (simp add: processQueue_def)
next
  case False
  obtain s' k where d: "drainLoop cfg now (s\<lparr>processing := True\<rparr>) = (s', k)"
    by (cases "drainLoop cfg now (s\<lparr>processing := True\<rparr>)")
  from drainLoop_frame[OF d] drainLoop_promises[OF d] False d
  show ?thesis
    by (simp add: processQueue_def accounted_def ac_simps)
qed

lemma mset_insertByPriority:
  "mset (insertByPriority item q) = add_mset item (mset q)"
  by (induction q) simp_all

lemma accounted_enqueue:
  "accounted (enqueue cfg now dat prio ident generated s) = add_mset (promises s) (accounted s)"
  by (simp add: enqueue_def Let_def accounted_processQueue)
     (simp add: accounted_def mset_insertByPriority)

lemma promises_processQueue: "promises (processQueue cfg now s) = promises s"
proof (cases "processing s \<or> queue s = []")
  case True
  then show ?thesis by (simp add: processQueue_def)
next
  case False
  obtain s' k where d: "drainLoop cfg now (s\<lparr>processing := True\<rparr>) = (s', k)"
    by (cases "drainLoop cfg now (s\<lparr>processing := True\<rparr>)")
  from drainLoop_frame[OF d] False d show ?thesis
    by (simp add: processQueue_def)
qed

lemma promises_enqueue:
  "promises (enqueue cfg now dat prio ident generated s) = Suc (promises s)"
  by (simp add: enqueue_def Let_def promises_processQueue)

lemma accounted_clear: "accounted (clear s) = accounted s"
  by (simp add: clear_def accounted_def comp_def)

lemma accounted_rejectTimerFires: "accounted (rejectTimerFires p s) = accounted s"
  by (simp add: rejectTimerFires_def accounted_def)

lemma accounted_sleepElapsed: "accounted (sleepElapsed cfg now i s) = accounted s"
proof (cases "i < length (loops s) \<and> loops s ! i = AwaitSleep")
  case False
  then show ?thesis by (auto simp add: sleepElapsed_def)
next
  case True
  obtain s' k where d: "drainLoop cfg now s = (s', k)"
    by (cases "drainLoop cfg now s")
  from True have "mset (concat (map inFlight ((loops s)[i := k])))
      = mset (concat (map inFlight (loops s))) + mset (inFlight k)"
    using mset_inFlight_update[of i "loops s" k] by simp
  with drainLoop_frame[OF d] drainLoop_promises[OF d] True d
  show ?thesis
    by (simp add: sleepElapsed_def accounted_def ac_simps)
qed

lemma accounted_workSettled: "accounted (workSettled cfg now i outcome s) = accounted s"
proof (cases "i < length (loops s) \<and> (\<exists>item. loops s ! i = AwaitWork item)")
  case False
  then show ?thesis by (auto simp add: workSettled_def split: suspension.splits)
next
  case True
  then obtain item where it: "loops s ! i = AwaitWork item" and i: "i < length (loops s)"
    by blast
  define s2 where "s2 = s\<lparr>calls := calls s @
                             [(promise item,
                               case outcome of
                                 Inr result \<Rightarrow> Resolved result
                               | Inl err \<Rightarrow> Rejected (WorkError err))],
                           pendingCount := pendingCount s - 1\<rparr>"
  obtain s3 k where d: "drainLoop cfg now s2 = (s3, k)"
    by (cases "drainLoop cfg now s2")
  have w: "workSettled cfg now i outcome s = s3\<lparr>loops := (loops s3)[i := k]\<rparr>"
    using i it d by (simp add: workSettled_def s2_def)
  have "mset (concat (map inFlight ((loops s)[i := k]))) + {#promise item#}
      = mset (concat (map inFlight (loops s))) + mset (inFlight k)"
    using mset_inFlight_update[of i "loops s" k] i it by simp
  then have "mset (concat (map inFlight ((loops s)[i := k]))) + {#promise item#}
        + mset (map promise (queue s3))
      = mset (concat (map inFlight (loops s))) + mset (map promise (queue s))"
    using drainLoop_promises[OF d] by (simp add: s2_def ac_simps)
  with drainLoop_frame[OF d]
  show ?thesis
    unfolding w by (simp add: accounted_def s2_def ac_simps)
qed

lemma promises_sleepElapsed: "promises (sleepElapsed cfg now i s) = promises s"
proof (cases "drainLoop cfg now s")
  case (Pair s' k)
  with drainLoop_frame[OF Pair] show ?thesis by (simp add: sleepElapsed_def)
qed

lemma promises_workSettled: "promises (workSettled cfg now i outcome s) = promises s"
proof (cases "i < length (loops s) \<and> (\<exists>item. loops s ! i = AwaitWork item)")
  case False
  then show ?thesis by (auto simp add: workSettled_def split: suspension.splits)
next
  case True
  then obtain item where it: "loops s ! i = AwaitWork item" and i: "i < length (loops s)"
    by blast
  define s2 where "s2 = s\<lparr>calls := calls s @
                             [(promise item,
                               case outcome of
                                 Inr result \<Rightarrow> Resolved result
                               | Inl err \<Rightarrow> Rejected (WorkError err))],
                           pendingCount := pendingCount s - 1\<rparr>"
  obtain s3 k where d: "drainLoop cfg now s2 = (s3, k)"
    by (cases "drainLoop cfg now s2")
  have w: "workSettled cfg now i outcome s = s3\<lparr>loops := (loops s3)[i := k]\<rparr>"
    using i it d by (simp add: workSettled_def s2_def)
  from drainLoop_frame[OF d] show ?thesis unfolding w by (simp add: s2_def)
qed

lemma promises_clear: "promises (clear s) = promises s"
  by (simp add: clear_def)

lemma promises_rejectTimerFires: "promises (rejectTimerFires p s) = promises s"
  by (simp add: rejectTimerFires_def)

lemma promises_step:
  "promises (step cfg s e) = (case e of Enqueue now dat prio ident generated \<Rightarrow> Suc (promises s)
                              | _ \<Rightarrow> promises s)"
  by (cases e)
     (simp_all add: promises_enqueue promises_sleepElapsed promises_workSettled
        clear_def rejectTimerFires_def)

lemma promises_step_mono: "promises s \<le> promises (step cfg s e)"
  by (simp add: promises_step split: event.splits)

lemma promises_run_mono: "promises s \<le> promises (run cfg s evs)"
proof (induction evs arbitrary: s)
  case Nil
  show ?case by simp
next
  case (Cons e evs)
  from promises_step_mono[of s cfg e] Cons[of "step cfg s e"] show ?case by simp
qed

lemma accounted_step:
  assumes "accounted s = mset [0..<promises s]"
  shows "accounted (step cfg s e) = mset [0..<promises (step cfg s e)]"
proof (cases e)
  case (Enqueue now dat prio ident generated)
  with assms show ?thesis by (simp add: accounted_enqueue promises_enqueue)
next
  case Clear
  with assms show ?thesis by (simp add: accounted_clear promises_clear)
next
  case (RejectTimerFires p)
  with assms show ?thesis by (simp add: accounted_rejectTimerFires promises_rejectTimerFires)
next
  case (SleepElapsed now i)
  with assms show ?thesis by (simp add: accounted_sleepElapsed promises_sleepElapsed)
next
  case (WorkSettled now i outcome)
  with assms show ?thesis by (simp add: accounted_workSettled promises_workSettled)
qed

lemma accounted_run:
  "accounted s = mset [0..<promises s] \<Longrightarrow>
     accounted (run cfg s evs) = mset [0..<promises (run cfg s evs)]"
  by (induction evs arbitrary: s) (simp_all add: accounted_step)

lemma accounted_reachable:
  "accounted (run cfg (initial t0) evs) = mset [0..<promises (run cfg (initial t0) evs)]"
  by (rule accounted_run) (rule accounted_initial)

lemma accounted_count:
  "count (accounted s) p = count_list (map fst (calls s)) p + count_list (awaiting s) p"
  by (simp add: accounted_def awaiting_def flip: count_mset)

lemma count_upt: "count (mset [0..<n]) p = (if p < n then 1 else 0)"
  by (simp add: count_mset count_list_0_iff distinct_count_atmost_1)

lemmas run_defs =
  initial_def enqueue_def processQueue_def drainLoop_def clampPriority_def Let_def
  clear_def rejectTimerFires_def sleepElapsed_def workSettled_def

lemma run_append: "run cfg s (xs @ ys) = run cfg (run cfg s xs) ys"
  by (induction xs arbitrary: s) simp_all

lemma distinct_awaiting:
  "accounted s = mset [0..<promises s] \<Longrightarrow>
     distinct (map fst (calls s) @ awaiting s)"
proof -
  assume a: "accounted s = mset [0..<promises s]"
  have "mset (map fst (calls s) @ awaiting s) = accounted s"
    by (simp add: accounted_def awaiting_def)
  with a have "mset (map fst (calls s) @ awaiting s) = mset [0..<promises s]" by simp
  then show ?thesis
    by (metis distinct_upt mset_eq_imp_distinct_iff)
qed

lemma awaiting_lt:
  "accounted s = mset [0..<promises s] \<Longrightarrow> p \<in> set (map fst (calls s) @ awaiting s)
     \<Longrightarrow> p < promises s"
proof -
  assume a: "accounted s = mset [0..<promises s]" and p: "p \<in> set (map fst (calls s) @ awaiting s)"
  have "mset (map fst (calls s) @ awaiting s) = accounted s"
    by (simp add: accounted_def awaiting_def)
  with a have "set (map fst (calls s) @ awaiting s) = set [0..<promises s]"
    by (metis set_mset_mset)
  with p have "p \<in> set [0..<promises s]" by blast
  then show ?thesis by simp
qed

section \<open>Clearing the queue\<close>

text \<open>
  C6. Calling \<open>clear()\<close> in any state the analyzer can reach, with \<open>k\<close> units in the
  queue: the calls it makes are exactly one \<open>errorCallback\<close> with the queue-cleared error
  for each queued unit, in queue order (\<open>k\<close> calls); the queued units are pairwise
  different and none of them had a callback called before, so each is resolved exactly
  once; and when \<open>clear()\<close> returns the queue is empty, \<open>pendingCount\<close> is 0 and
  \<open>processing\<close> is false.
\<close>

theorem clear_resolves_queued:
  "calls (clear (run cfg (initial t0) evs))
     = calls (run cfg (initial t0) evs)
       @ map (\<lambda>item. (promise item, Rejected QueueClearedError)) (queue (run cfg (initial t0) evs))
   \<and> distinct (map promise (queue (run cfg (initial t0) evs)))
   \<and> set (map promise (queue (run cfg (initial t0) evs)))
       \<inter> set (map fst (calls (run cfg (initial t0) evs))) = {}
   \<and> queue (clear (run cfg (initial t0) evs)) = []
   \<and> pendingCount (clear (run cfg (initial t0) evs)) = 0
   \<and> processing (clear (run cfg (initial t0) evs)) = False"
proof -
  let ?s = "run cfg (initial t0) evs"
  have "distinct (map fst (calls ?s) @ awaiting ?s)"
    by (rule distinct_awaiting) (rule accounted_reachable)
  then have "distinct (map promise (queue ?s))"
    and "set (map promise (queue ?s)) \<inter> set (map fst (calls ?s)) = {}"
    by (auto simp: awaiting_def)
  then show ?thesis by (simp add: clear_def)
qed

theorem clear_resolves_queued_witness:
  "calls (clear (run cfgA (initial 0)
      [Enqueue 0 JNull 0 None ''a'', Enqueue 0 JNull 0 None ''b'', Enqueue 0 JNull 2 None ''c'']))
     = [(2, Rejected QueueClearedError), (1, Rejected QueueClearedError)]
   \<and> queue (clear (run cfgA (initial 0)
      [Enqueue 0 JNull 0 None ''a'', Enqueue 0 JNull 0 None ''b'', Enqueue 0 JNull 2 None ''c''])) = []"
  using clear_resolves_queued[of cfgA 0
      "[Enqueue 0 JNull 0 None ''a'', Enqueue 0 JNull 0 None ''b'', Enqueue 0 JNull 2 None ''c'']"]
  by (simp add: cfgA_def run_defs)

section \<open>Admission\<close>

lemma calls_processQueue: "calls (processQueue cfg now s) = calls s"
proof (cases "drainLoop cfg now (s\<lparr>processing := True\<rparr>)")
  case (Pair s' k)
  with drainLoop_frame[OF Pair] show ?thesis by (simp add: processQueue_def)
qed

lemma rejectTimers_processQueue: "rejectTimers (processQueue cfg now s) = rejectTimers s"
proof (cases "drainLoop cfg now (s\<lparr>processing := True\<rparr>)")
  case (Pair s' k)
  with drainLoop_frame[OF Pair] show ?thesis by (simp add: processQueue_def)
qed

lemma pendingCount_processQueue: "pendingCount (processQueue cfg now s) = pendingCount s"
proof (cases "drainLoop cfg now (s\<lparr>processing := True\<rparr>)")
  case (Pair s' k)
  with drainLoop_frame[OF Pair] show ?thesis by (simp add: processQueue_def)
qed

lemma calls_enqueue: "calls (enqueue cfg now dat prio ident generated s) = calls s"
  by (simp add: enqueue_def Let_def calls_processQueue)

lemma rejectTimers_enqueue:
  "rejectTimers (enqueue cfg now dat prio ident generated s)
     = (if maxQueueSize cfg \<le> pendingCount s then rejectTimers s @ [promises s]
        else rejectTimers s)"
  by (simp add: enqueue_def Let_def rejectTimers_processQueue)

lemma pendingCount_enqueue:
  "pendingCount (enqueue cfg now dat prio ident generated s)
     = (if maxQueueSize cfg \<le> pendingCount s then pendingCount s else pendingCount s + 1)"
  by (simp add: enqueue_def Let_def pendingCount_processQueue)

lemma sleepElapsed_frame:
  "calls (sleepElapsed cfg now i s) = calls s
   \<and> rejectTimers (sleepElapsed cfg now i s) = rejectTimers s
   \<and> pendingCount (sleepElapsed cfg now i s) = pendingCount s"
proof (cases "drainLoop cfg now s")
  case (Pair s' k)
  with drainLoop_frame[OF Pair] show ?thesis by (simp add: sleepElapsed_def)
qed

lemma workSettled_effect:
  assumes "i < length (loops s)" and "loops s ! i = AwaitWork item"
  shows "calls (workSettled cfg now i outcome s)
           = calls s @ [(promise item, case outcome of Inr result \<Rightarrow> Resolved result
                                       | Inl err \<Rightarrow> Rejected (WorkError err))]
         \<and> rejectTimers (workSettled cfg now i outcome s) = rejectTimers s
         \<and> pendingCount (workSettled cfg now i outcome s) = pendingCount s - 1"
proof -
  define s2 where "s2 = s\<lparr>calls := calls s @
                             [(promise item,
                               case outcome of
                                 Inr result \<Rightarrow> Resolved result
                               | Inl err \<Rightarrow> Rejected (WorkError err))],
                           pendingCount := pendingCount s - 1\<rparr>"
  obtain s3 k where d: "drainLoop cfg now s2 = (s3, k)"
    by (cases "drainLoop cfg now s2")
  have w: "workSettled cfg now i outcome s = s3\<lparr>loops := (loops s3)[i := k]\<rparr>"
    using assms d by (simp add: workSettled_def s2_def)
  from drainLoop_frame[OF d] show ?thesis unfolding w by (simp add: s2_def)
qed

lemma workSettled_idle:
  "\<not> (i < length (loops s) \<and> (\<exists>item. loops s ! i = AwaitWork item)) \<Longrightarrow>
     workSettled cfg now i outcome s = s"
  by (auto simp add: workSettled_def split: suspension.splits)

lemma neverFull_step: "neverFull p s \<Longrightarrow> neverFull p (step cfg s e)"
proof (cases e)
  case (Enqueue now dat prio ident generated)
  assume "neverFull p s"
  with Enqueue show ?thesis
    by (simp add: neverFull_def promises_enqueue rejectTimers_enqueue calls_enqueue)
next
  case Clear
  assume "neverFull p s"
  with Clear show ?thesis by (auto simp add: neverFull_def clear_def)
next
  case (RejectTimerFires q)
  assume "neverFull p s"
  with RejectTimerFires show ?thesis
    by (auto simp add: neverFull_def rejectTimerFires_def)
next
  case (SleepElapsed now i)
  assume "neverFull p s"
  with SleepElapsed show ?thesis
    by (simp add: neverFull_def promises_sleepElapsed sleepElapsed_frame)
next
  case (WorkSettled now i outcome)
  assume n: "neverFull p s"
  show ?thesis
  proof (cases "i < length (loops s) \<and> (\<exists>item. loops s ! i = AwaitWork item)")
    case False
    with n WorkSettled show ?thesis by (simp add: workSettled_idle)
  next
    case True
    then obtain item where "i < length (loops s)" "loops s ! i = AwaitWork item" by blast
    from workSettled_effect[OF this, of cfg now outcome] n WorkSettled
    show ?thesis
      by (auto simp add: neverFull_def promises_workSettled split: sum.splits)
  qed
qed

lemma neverFull_run: "neverFull p s \<Longrightarrow> neverFull p (run cfg s evs)"
  by (induction evs arbitrary: s) (simp_all add: neverFull_step)

text \<open>
  C5. In any state the analyzer can reach, a call of \<open>enqueue\<close> is refused exactly when
  \<open>pendingCount \<ge> maxQueueSize\<close> at that moment: then, and only then, it sets the timer
  that rejects the new promise. The call itself calls no callback, whether it refuses the
  unit or admits it. When it refuses, the state is the old one but for the timer and the
  count of promises created (the queue, \<open>pendingCount\<close>, \<open>requestCount\<close>, \<open>lastResetTime\<close>,
  \<open>processing\<close> and the suspended loops are unchanged), and the timer, when it fires,
  calls the \<open>errorCallback\<close> with the queue-full error. When it admits, nothing that
  happens afterwards rejects that unit with the queue-full error.
\<close>

theorem enqueue_rejects_iff_full:
  "(promises (run cfg (initial t0) evs) \<in> set (rejectTimers
        (enqueue cfg now dat prio ident generated (run cfg (initial t0) evs)))
      \<longleftrightarrow> maxQueueSize cfg \<le> pendingCount (run cfg (initial t0) evs))
   \<and> calls (enqueue cfg now dat prio ident generated (run cfg (initial t0) evs))
       = calls (run cfg (initial t0) evs)
   \<and> (maxQueueSize cfg \<le> pendingCount (run cfg (initial t0) evs) \<longrightarrow>
        enqueue cfg now dat prio ident generated (run cfg (initial t0) evs)
          = (run cfg (initial t0) evs)
              \<lparr>rejectTimers := rejectTimers (run cfg (initial t0) evs)
                                 @ [promises (run cfg (initial t0) evs)],
               promises := Suc (promises (run cfg (initial t0) evs))\<rparr>
        \<and> calls (rejectTimerFires (promises (run cfg (initial t0) evs))
                   (enqueue cfg now dat prio ident generated (run cfg (initial t0) evs)))
            = calls (run cfg (initial t0) evs)
              @ [(promises (run cfg (initial t0) evs), Rejected QueueFullError)])
   \<and> (pendingCount (run cfg (initial t0) evs) < maxQueueSize cfg \<longrightarrow>
        (promises (run cfg (initial t0) evs), Rejected QueueFullError)
          \<notin> set (calls (run cfg
                (enqueue cfg now dat prio ident generated (run cfg (initial t0) evs)) evs')))"
proof -
  let ?s = "run cfg (initial t0) evs"
  let ?s' = "enqueue cfg now dat prio ident generated ?s"
  have d: "distinct (map fst (calls ?s) @ awaiting ?s)"
    by (rule distinct_awaiting) (rule accounted_reachable)
  have fresh: "promises ?s \<notin> set (map fst (calls ?s) @ awaiting ?s)"
    using awaiting_lt[OF accounted_reachable, of "promises ?s" cfg t0 evs] by blast
  then have nt: "promises ?s \<notin> set (rejectTimers ?s)"
    and nc: "(promises ?s, Rejected QueueFullError) \<notin> set (calls ?s)"
    by (force simp: awaiting_def)+
  have 1: "promises ?s \<in> set (rejectTimers ?s') \<longleftrightarrow> maxQueueSize cfg \<le> pendingCount ?s"
    using nt by (simp add: rejectTimers_enqueue)
  have 2: "calls ?s' = calls ?s" by (rule calls_enqueue)
  have 3: "maxQueueSize cfg \<le> pendingCount ?s \<longrightarrow>
        ?s' = ?s\<lparr>rejectTimers := rejectTimers ?s @ [promises ?s], promises := Suc (promises ?s)\<rparr>
        \<and> calls (rejectTimerFires (promises ?s) ?s')
            = calls ?s @ [(promises ?s, Rejected QueueFullError)]"
    by (simp add: enqueue_def rejectTimerFires_def)
  have 4: "pendingCount ?s < maxQueueSize cfg \<longrightarrow>
        (promises ?s, Rejected QueueFullError) \<notin> set (calls (run cfg ?s' evs'))"
  proof
    assume "pendingCount ?s < maxQueueSize cfg"
    with nt nc have "neverFull (promises ?s) ?s'"
      by (simp add: neverFull_def promises_enqueue rejectTimers_enqueue calls_enqueue)
    then have "neverFull (promises ?s) (run cfg ?s' evs')" by (rule neverFull_run)
    then show "(promises ?s, Rejected QueueFullError) \<notin> set (calls (run cfg ?s' evs'))"
      by (simp add: neverFull_def)
  qed
  from 1 2 3 4 show ?thesis by blast
qed

theorem enqueue_rejects_iff_full_witness:
  "maxQueueSize cfgB \<le> pendingCount (run cfgB (initial 0) [Enqueue 0 JNull 0 None ''x''])
   \<and> enqueue cfgB 1 JNull 2 None ''y'' (run cfgB (initial 0) [Enqueue 0 JNull 0 None ''x''])
       = (run cfgB (initial 0) [Enqueue 0 JNull 0 None ''x''])\<lparr>rejectTimers := [1], promises := 2\<rparr>
   \<and> calls (rejectTimerFires 1
         (enqueue cfgB 1 JNull 2 None ''y'' (run cfgB (initial 0) [Enqueue 0 JNull 0 None ''x''])))
       = [(1, Rejected QueueFullError)]
   \<and> pendingCount (run cfgB (initial 0) []) < maxQueueSize cfgB
   \<and> (0, Rejected QueueFullError) \<notin> set (calls (run cfgB
         (enqueue cfgB 0 JNull 0 None ''x'' (run cfgB (initial 0) []))
         [WorkSettled 100 0 (Inr ''r'')]))"
  using enqueue_rejects_iff_full[of cfgB 0 "[Enqueue 0 JNull 0 None ''x'']" 1 JNull 2 None "''y''" "[]"]
    enqueue_rejects_iff_full[of cfgB 0 "[]" 0 JNull 0 None "''x''" "[WorkSettled 100 0 (Inr ''r'')]"]
  by (simp add: cfgB_def run_defs)

section \<open>A unit in execution\<close>

lemma loops_processQueue:
  "i < length (loops s) \<Longrightarrow>
     i < length (loops (processQueue cfg now s)) \<and> loops (processQueue cfg now s) ! i = loops s ! i"
proof (cases "drainLoop cfg now (s\<lparr>processing := True\<rparr>)")
  case (Pair s' k)
  assume "i < length (loops s)"
  with drainLoop_frame[OF Pair] Pair show ?thesis
    by (simp add: processQueue_def nth_append)
qed

lemma loops_enqueue:
  "i < length (loops s) \<Longrightarrow>
     i < length (loops (enqueue cfg now dat prio ident generated s))
     \<and> loops (enqueue cfg now dat prio ident generated s) ! i = loops s ! i"
  using loops_processQueue[of i "s\<lparr>queue := insertByPriority
         \<lparr>itemId = (case ident of None \<Rightarrow> generated | Some i \<Rightarrow> if i = [] then generated else i),
          priority = clampPriority cfg prio, timestamp = now, payload = dat, promise = promises s\<rparr>
         (queue s), promises := Suc (promises s), pendingCount := pendingCount s + 1\<rparr>" cfg now]
  by (simp add: enqueue_def Let_def)

lemma loops_sleepElapsed:
  "i < length (loops s) \<Longrightarrow> loops s ! i = AwaitWork item \<Longrightarrow>
     i < length (loops (sleepElapsed cfg now j s))
     \<and> loops (sleepElapsed cfg now j s) ! i = AwaitWork item"
proof (cases "drainLoop cfg now s")
  case (Pair s' k)
  assume "i < length (loops s)" "loops s ! i = AwaitWork item"
  with drainLoop_frame[OF Pair] Pair show ?thesis
    by (auto simp add: sleepElapsed_def nth_list_update)
qed

lemma loops_workSettled:
  assumes "i < length (loops s)" and "loops s ! i = AwaitWork item" and "j \<noteq> i"
  shows "i < length (loops (workSettled cfg now j outcome s))
         \<and> loops (workSettled cfg now j outcome s) ! i = AwaitWork item"
proof (cases "j < length (loops s) \<and> (\<exists>it. loops s ! j = AwaitWork it)")
  case False
  with assms show ?thesis by (simp add: workSettled_idle)
next
  case True
  then obtain it where j: "j < length (loops s)" "loops s ! j = AwaitWork it" by blast
  define s2 where "s2 = s\<lparr>calls := calls s @
                             [(promise it,
                               case outcome of
                                 Inr result \<Rightarrow> Resolved result
                               | Inl err \<Rightarrow> Rejected (WorkError err))],
                           pendingCount := pendingCount s - 1\<rparr>"
  obtain s3 k where d: "drainLoop cfg now s2 = (s3, k)"
    by (cases "drainLoop cfg now s2")
  have w: "workSettled cfg now j outcome s = s3\<lparr>loops := (loops s3)[j := k]\<rparr>"
    using j d by (simp add: workSettled_def s2_def)
  from drainLoop_frame[OF d] assms show ?thesis unfolding w by (simp add: s2_def)
qed

lemma awaitWork_step:
  assumes "i < length (loops s)" and "loops s ! i = AwaitWork item" and "\<not> settlesLoop i e"
  shows "i < length (loops (step cfg s e)) \<and> loops (step cfg s e) ! i = AwaitWork item"
proof (cases e)
  case (Enqueue now dat prio ident generated)
  with assms loops_enqueue[of i s cfg now dat prio ident generated] show ?thesis by simp
next
  case Clear
  with assms show ?thesis by (simp add: clear_def)
next
  case (RejectTimerFires p)
  with assms show ?thesis by (simp add: rejectTimerFires_def)
next
  case (SleepElapsed now j)
  with assms loops_sleepElapsed[of i s item cfg now j] show ?thesis by simp
next
  case (WorkSettled now j outcome)
  with assms loops_workSettled[of i s item j cfg now outcome] show ?thesis
    by (simp add: settlesLoop_def)
qed

lemma awaitWork_run:
  "i < length (loops s) \<Longrightarrow> loops s ! i = AwaitWork item \<Longrightarrow> \<not> list_ex (settlesLoop i) evs
     \<Longrightarrow> i < length (loops (run cfg s evs)) \<and> loops (run cfg s evs) ! i = AwaitWork item"
proof (induction evs arbitrary: s)
  case Nil
  then show ?case by simp
next
  case (Cons e evs)
  from Cons.prems have "i < length (loops (step cfg s e)) \<and> loops (step cfg s e) ! i = AwaitWork item"
    using awaitWork_step[of i s item e cfg] by simp
  with Cons.IH[of "step cfg s e"] Cons.prems show ?case by simp
qed

lemma inFlight_awaiting:
  "i < length (loops s) \<Longrightarrow> loops s ! i = AwaitWork item \<Longrightarrow> promise item \<in> set (awaiting s)"
proof -
  assume i: "i < length (loops s)" and w: "loops s ! i = AwaitWork item"
  then have "AwaitWork item \<in> set (loops s)" by (metis nth_mem)
  then have "promise item \<in> set (concat (map inFlight (loops s)))" by force
  then show ?thesis by (simp add: awaiting_def)
qed

lemma run_snoc: "run cfg s (evs @ [e]) = step cfg (run cfg s evs) e"
  by (simp add: run_append)

text \<open>
  C9. A unit that is executing when \<open>clear()\<close> is called is not resolved by \<open>clear()\<close>.
  If, in a state the analyzer can reach, the activation \<open>i\<close> of \<open>processQueue\<close> awaits the
  analysis of \<open>item\<close>, then \<open>item\<close> is not in the queue, \<open>clear()\<close> calls no callback of
  it, and through whatever happens afterwards, short of that analysis settling, the
  activation keeps awaiting it and still none of its callbacks is called. When the analysis
  settles, the loop calls \<open>callback\<close> with the result, or \<open>errorCallback\<close> with the error
  the analysis threw, not the queue-cleared error.
\<close>

theorem executing_unit_survives_clear:
  assumes "i < length (loops (run cfg (initial t0) evs))"
    and "loops (run cfg (initial t0) evs) ! i = AwaitWork item"
    and "\<not> list_ex (settlesLoop i) evs'"
  shows "promise item \<notin> set (map promise (queue (run cfg (initial t0) evs)))
    \<and> promise item \<notin> set (map fst (calls (clear (run cfg (initial t0) evs))))
    \<and> promise item \<notin> set (map fst (calls (run cfg (clear (run cfg (initial t0) evs)) evs')))
    \<and> i < length (loops (run cfg (clear (run cfg (initial t0) evs)) evs'))
    \<and> loops (run cfg (clear (run cfg (initial t0) evs)) evs') ! i = AwaitWork item
    \<and> calls (workSettled cfg now i (Inr result) (run cfg (clear (run cfg (initial t0) evs)) evs'))
        = calls (run cfg (clear (run cfg (initial t0) evs)) evs') @ [(promise item, Resolved result)]
    \<and> calls (workSettled cfg now i (Inl err) (run cfg (clear (run cfg (initial t0) evs)) evs'))
        = calls (run cfg (clear (run cfg (initial t0) evs)) evs')
          @ [(promise item, Rejected (WorkError err))]"
proof -
  let ?s = "run cfg (initial t0) evs"
  let ?c = "clear ?s"
  let ?r = "run cfg ?c evs'"
  have dist: "\<And>es. distinct (map fst (calls (run cfg (initial t0) es))
                 @ awaiting (run cfg (initial t0) es))"
    by (rule distinct_awaiting) (rule accounted_reachable)
  have c: "?c = run cfg (initial t0) (evs @ [Clear])"
    by (simp add: run_snoc)
  have r: "?r = run cfg (initial t0) (evs @ [Clear] @ evs')"
    by (simp add: run_append)
  have ic: "i < length (loops ?c)" "loops ?c ! i = AwaitWork item"
    using assms(1,2) by (simp_all add: clear_def)
  have ir: "i < length (loops ?r) \<and> loops ?r ! i = AwaitWork item"
    using awaitWork_run[OF ic assms(3)] .
  have 1: "promise item \<notin> set (map promise (queue ?s))"
  proof -
    from assms(1,2) have "AwaitWork item \<in> set (loops ?s)" by (metis nth_mem)
    then have "promise item \<in> set (concat (map inFlight (loops ?s)))" by force
    with dist[of evs] show ?thesis by (auto simp: awaiting_def)
  qed
  have 2: "promise item \<notin> set (map fst (calls ?c))"
    using inFlight_awaiting[OF ic] dist[of "evs @ [Clear]"] unfolding c[symmetric] by auto
  have 3: "promise item \<notin> set (map fst (calls ?r))"
    using inFlight_awaiting[of i ?r item] ir dist[of "evs @ [Clear] @ evs'"]
    unfolding r[symmetric] by auto
  have 4: "calls (workSettled cfg now i (Inr result) ?r) = calls ?r @ [(promise item, Resolved result)]"
    using workSettled_effect[of i ?r item cfg now "Inr result"] ir by simp
  have 5: "calls (workSettled cfg now i (Inl err) ?r)
             = calls ?r @ [(promise item, Rejected (WorkError err))]"
    using workSettled_effect[of i ?r item cfg now "Inl err"] ir by simp
  from 1 2 3 ir 4 5 show ?thesis by blast
qed

theorem executing_unit_survives_clear_witness:
  "loops (run cfgA (initial 0) [Enqueue 0 JNull 0 None ''x'', Enqueue 0 JNull 0 None ''y'']) ! 0
     = AwaitWork \<lparr>itemId = ''x'', priority = 0, timestamp = 0, payload = JNull, promise = 0\<rparr>
   \<and> calls (clear (run cfgA (initial 0) [Enqueue 0 JNull 0 None ''x'', Enqueue 0 JNull 0 None ''y'']))
       = [(1, Rejected QueueClearedError)]
   \<and> calls (workSettled cfgA 100 0 (Inr ''r'')
        (run cfgA (clear (run cfgA (initial 0)
           [Enqueue 0 JNull 0 None ''x'', Enqueue 0 JNull 0 None ''y''])) []))
       = [(1, Rejected QueueClearedError), (0, Resolved ''r'')]"
  using executing_unit_survives_clear[of 0 cfgA 0
      "[Enqueue 0 JNull 0 None ''x'', Enqueue 0 JNull 0 None ''y'']"
      "\<lparr>itemId = ''x'', priority = 0, timestamp = 0, payload = JNull, promise = 0\<rparr>"
      "[]" 100 "''r''" "''e''"]
  by (simp add: cfgA_def run_defs settlesLoop_def)

section \<open>Capacity\<close>

lemma pendingCount_step_le:
  assumes "0 \<le> maxQueueSize cfg" and "pendingCount s \<le> maxQueueSize cfg"
  shows "pendingCount (step cfg s e) \<le> maxQueueSize cfg"
proof (cases e)
  case (Enqueue now dat prio ident generated)
  with assms show ?thesis by (simp add: pendingCount_enqueue)
next
  case Clear
  with assms show ?thesis by (simp add: clear_def)
next
  case (RejectTimerFires p)
  with assms show ?thesis by (simp add: rejectTimerFires_def)
next
  case (SleepElapsed now i)
  with assms show ?thesis by (simp add: sleepElapsed_frame)
next
  case (WorkSettled now i outcome)
  show ?thesis
  proof (cases "i < length (loops s) \<and> (\<exists>item. loops s ! i = AwaitWork item)")
    case False
    with assms WorkSettled show ?thesis by (simp add: workSettled_idle)
  next
    case True
    then obtain item where "i < length (loops s)" "loops s ! i = AwaitWork item" by blast
    from workSettled_effect[OF this, of cfg now outcome] assms WorkSettled
    show ?thesis by simp
  qed
qed

lemma pendingCount_run_le:
  "0 \<le> maxQueueSize cfg \<Longrightarrow> pendingCount s \<le> maxQueueSize cfg
     \<Longrightarrow> pendingCount (run cfg s evs) \<le> maxQueueSize cfg"
  by (induction evs arbitrary: s) (simp_all add: pendingCount_step_le)

lemma drainLoop_length:
  "drainLoop cfg now s = (s', k) \<Longrightarrow> length (queue s') + length (inFlight k) = length (queue s)"
  using drainLoop_promises[of cfg now s s' k]
  by (metis length_append length_map mset_append size_mset)

lemma length_inFlight_update:
  "i < length ks \<Longrightarrow>
     length (concat (map inFlight (ks[i := k]))) + length (inFlight (ks ! i))
       = length (concat (map inFlight ks)) + length (inFlight k)"
  using mset_inFlight_update[of i ks k]
  by (metis length_append mset_append size_mset)

lemma tracked_processQueue: "tracked s \<Longrightarrow> tracked (processQueue cfg now s)"
proof (cases "processing s \<or> queue s = []")
  case True
  assume "tracked s"
  with True show ?thesis by (simp add: processQueue_def)
next
  case False
  assume t: "tracked s"
  obtain s' k where d: "drainLoop cfg now (s\<lparr>processing := True\<rparr>) = (s', k)"
    by (cases "drainLoop cfg now (s\<lparr>processing := True\<rparr>)")
  from drainLoop_frame[OF d] drainLoop_length[OF d] False d t
  show ?thesis
    by (simp add: processQueue_def tracked_def executing_def)
qed

lemma length_insertByPriority: "length (insertByPriority item q) = Suc (length q)"
  by (induction q) simp_all

lemma tracked_enqueue: "tracked s \<Longrightarrow> tracked (enqueue cfg now dat prio ident generated s)"
proof (cases "maxQueueSize cfg \<le> pendingCount s")
  case True
  assume "tracked s"
  with True show ?thesis by (simp add: enqueue_def tracked_def executing_def)
next
  case False
  assume t: "tracked s"
  define item where "item = \<lparr>itemId = (case ident of None \<Rightarrow> generated
                                        | Some i \<Rightarrow> if i = [] then generated else i),
                      priority = clampPriority cfg prio, timestamp = now, payload = dat,
                      promise = promises s\<rparr>"
  define s2 where "s2 = s\<lparr>queue := insertByPriority item (queue s),
                           promises := Suc (promises s),
                           pendingCount := pendingCount s + 1\<rparr>"
  have e: "enqueue cfg now dat prio ident generated s = processQueue cfg now s2"
    using False by (simp add: enqueue_def Let_def s2_def item_def)
  from t have "tracked s2"
    by (simp add: tracked_def s2_def executing_def length_insertByPriority)
  then show ?thesis unfolding e by (rule tracked_processQueue)
qed

lemma tracked_sleepElapsed: "tracked s \<Longrightarrow> tracked (sleepElapsed cfg now i s)"
proof (cases "i < length (loops s) \<and> loops s ! i = AwaitSleep")
  case False
  assume "tracked s"
  with False show ?thesis by (auto simp add: sleepElapsed_def)
next
  case True
  assume t: "tracked s"
  obtain s' k where d: "drainLoop cfg now s = (s', k)"
    by (cases "drainLoop cfg now s")
  from True have "length (concat (map inFlight ((loops s)[i := k])))
      = length (concat (map inFlight (loops s))) + length (inFlight k)"
    using length_inFlight_update[of i "loops s" k] by simp
  with drainLoop_frame[OF d] drainLoop_length[OF d] True d t
  show ?thesis
    by (simp add: sleepElapsed_def tracked_def executing_def)
qed

lemma tracked_workSettled: "tracked s \<Longrightarrow> tracked (workSettled cfg now i outcome s)"
proof (cases "i < length (loops s) \<and> (\<exists>item. loops s ! i = AwaitWork item)")
  case False
  assume "tracked s"
  with False show ?thesis by (simp add: workSettled_idle)
next
  case True
  assume t: "tracked s"
  from True obtain item where it: "loops s ! i = AwaitWork item" and i: "i < length (loops s)"
    by blast
  define s2 where "s2 = s\<lparr>calls := calls s @
                             [(promise item,
                               case outcome of
                                 Inr result \<Rightarrow> Resolved result
                               | Inl err \<Rightarrow> Rejected (WorkError err))],
                           pendingCount := pendingCount s - 1\<rparr>"
  obtain s3 k where d: "drainLoop cfg now s2 = (s3, k)"
    by (cases "drainLoop cfg now s2")
  have w: "workSettled cfg now i outcome s = s3\<lparr>loops := (loops s3)[i := k]\<rparr>"
    using i it d by (simp add: workSettled_def s2_def)
  have "length (concat (map inFlight ((loops s)[i := k]))) + 1
      = length (concat (map inFlight (loops s))) + length (inFlight k)"
    using length_inFlight_update[of i "loops s" k] i it by simp
  with drainLoop_frame[OF d] drainLoop_length[OF d] t
  show ?thesis
    unfolding w by (simp add: tracked_def executing_def s2_def)
qed

lemma tracked_step:
  "tracked s \<Longrightarrow> \<not> (e = Clear \<and> 0 < executing s) \<Longrightarrow> tracked (step cfg s e)"
proof (cases e)
  case (Enqueue now dat prio ident generated)
  assume "tracked s"
  with Enqueue show ?thesis by (simp add: tracked_enqueue)
next
  case Clear
  assume "tracked s" "\<not> (e = Clear \<and> 0 < executing s)"
  with Clear show ?thesis by (simp add: tracked_def clear_def executing_def)
next
  case (RejectTimerFires p)
  assume "tracked s"
  with RejectTimerFires show ?thesis by (simp add: tracked_def rejectTimerFires_def executing_def)
next
  case (SleepElapsed now i)
  assume "tracked s"
  with SleepElapsed show ?thesis by (simp add: tracked_sleepElapsed)
next
  case (WorkSettled now i outcome)
  assume "tracked s"
  with WorkSettled show ?thesis by (simp add: tracked_workSettled)
qed

lemma tracked_run:
  "tracked s \<Longrightarrow> \<not> clearedInFlight cfg s evs \<Longrightarrow> tracked (run cfg s evs)"
proof (induction evs arbitrary: s)
  case Nil
  then show ?case by simp
next
  case (Cons e evs)
  from Cons.prems have "tracked (step cfg s e)" by (simp add: tracked_step)
  with Cons.IH[of "step cfg s e"] Cons.prems show ?case by simp
qed

lemma pendingCount_tracks_without_clear:
  assumes "0 \<le> maxQueueSize cfg"
  shows "pendingCount (run cfg (initial t0) evs) \<le> maxQueueSize cfg
     \<and> (\<not> clearedInFlight cfg (initial t0) evs \<longrightarrow>
          pendingCount (run cfg (initial t0) evs)
            = int (length (queue (run cfg (initial t0) evs)))
              + int (executing (run cfg (initial t0) evs)))"
proof -
  have "pendingCount (initial t0) \<le> maxQueueSize cfg"
    using assms by (simp add: initial_def)
  with assms have 1: "pendingCount (run cfg (initial t0) evs) \<le> maxQueueSize cfg"
    by (rule pendingCount_run_le)
  have "tracked (initial t0)" by (simp add: tracked_def initial_def executing_def)
  then have "\<not> clearedInFlight cfg (initial t0) evs \<longrightarrow> tracked (run cfg (initial t0) evs)"
    by (simp add: tracked_run)
  with 1 show ?thesis by (simp add: tracked_def)
qed

text \<open>
  C1. The number of pending units, queued plus executing, which \<open>pendingCount\<close> is there
  to track (the check in \<open>enqueue\<close> is commented as the total of queue and currently
  processing), never exceeds \<open>maxQueueSize\<close>, whatever is submitted, executed, completed
  and cleared. The code does not keep this: \<open>clear()\<close> sets \<open>pendingCount\<close> to 0 while a
  unit is executing. With capacity 1, after \<open>enqueue\<close>, \<open>clear\<close>, \<open>enqueue\<close> nothing has
  been rejected and two units are pending, both executing; and when the first unit
  completes after the \<open>clear\<close>, the counter goes down to -1. (In the runs where \<open>clear()\<close>
  is not called while a unit is executing, the counter is the number of pending units and
  within the capacity, as the lemma above says.)
\<close>

theorem pending_units_exceed_capacity:
  "\<not> int (length (queue (run cfgB (initial 0)
          [Enqueue 0 JNull 0 None ''x'', Clear, Enqueue 1 JNull 0 None ''y''])))
      + int (executing (run cfgB (initial 0)
          [Enqueue 0 JNull 0 None ''x'', Clear, Enqueue 1 JNull 0 None ''y'']))
      \<le> maxQueueSize cfgB
   \<and> maxQueueSize cfgB = 1
   \<and> executing (run cfgB (initial 0)
        [Enqueue 0 JNull 0 None ''x'', Clear, Enqueue 1 JNull 0 None ''y'']) = 2
   \<and> rejectTimers (run cfgB (initial 0)
        [Enqueue 0 JNull 0 None ''x'', Clear, Enqueue 1 JNull 0 None ''y'']) = []
   \<and> calls (run cfgB (initial 0)
        [Enqueue 0 JNull 0 None ''x'', Clear, Enqueue 1 JNull 0 None ''y'']) = []
   \<and> pendingCount (run cfgB (initial 0)
        [Enqueue 0 JNull 0 None ''x'', Clear, WorkSettled 100 0 (Inr ''r'')]) = - 1"
  by (simp add: cfgB_def run_defs executing_def)

section \<open>The rate window\<close>

lemma filter_later_empty:
  "\<forall>e \<in> set xs. snd e \<le> (t::int) \<Longrightarrow> t < w \<Longrightarrow> filter (\<lambda>e. snd e = w) xs = []"
  by (induction xs) auto

lemma rateInv_drainLoop:
  assumes "rateInv cfg s" and "drainLoop cfg now s = (s', k)"
  shows "rateInv cfg s'"
proof (cases "queue s")
  case Nil
  with assms(2) have "s' = s\<lparr>processing := False\<rparr>" by (auto simp add: drainLoop_def)
  with assms(1) show ?thesis by (simp add: rateInv_def windowStarts_def)
next
  case (Cons item rest)
  show ?thesis
  proof (cases "now - lastResetTime s \<ge> 1000")
    case True
    then have lt: "lastResetTime s < now" by simp
    from assms(1) have le: "\<forall>e \<in> set (started s). snd e \<le> lastResetTime s"
      and bound: "\<forall>w. int (windowStarts s w) \<le> requestsPerSecond cfg"
      by (simp_all add: rateInv_def)
    from filter_later_empty[OF le lt] have none: "filter (\<lambda>e. snd e = now) (started s) = []" .
    from bound have nn: "0 \<le> requestsPerSecond cfg"
      by (metis of_nat_0_le_iff order_trans)
    have le': "\<forall>e \<in> set (started s). snd e \<le> now" using le lt by fastforce
    show ?thesis
    proof (cases "0 \<ge> requestsPerSecond cfg")
      case True
      with \<open>now - lastResetTime s \<ge> 1000\<close> Cons assms(2)
      have "s' = s\<lparr>requestCount := 0, lastResetTime := now\<rparr>"
        by (auto simp add: drainLoop_def Let_def)
      with none le' bound show ?thesis by (simp add: rateInv_def windowStarts_def)
    next
      case False
      with \<open>now - lastResetTime s \<ge> 1000\<close> Cons assms(2)
      have s': "s' = s\<lparr>requestCount := 1, lastResetTime := now, queue := rest,
                        started := started s @ [(promise item, now)]\<rparr>"
        by (auto simp add: drainLoop_def Let_def)
      have "\<And>w. int (length (filter (\<lambda>e. snd e = w) (started s @ [(promise item, now)])))
                \<le> requestsPerSecond cfg"
      proof -
        fix w
        show "int (length (filter (\<lambda>e. snd e = w) (started s @ [(promise item, now)])))
                \<le> requestsPerSecond cfg"
        proof (cases "w = now")
          case True
          with none False show ?thesis by simp
        next
          case False
          with bound[rule_format, of w] show ?thesis by (simp add: windowStarts_def)
        qed
      qed
      with none le' show ?thesis unfolding s' by (simp add: rateInv_def windowStarts_def)
    qed
  next
    case False
    then have wait: "1000 - (now - lastResetTime s) > 0" by simp
    from assms(1) have cnt: "requestCount s = int (windowStarts s (lastResetTime s))"
      and le: "\<forall>e \<in> set (started s). snd e \<le> lastResetTime s"
      and bound: "\<forall>w. int (windowStarts s w) \<le> requestsPerSecond cfg"
      by (simp_all add: rateInv_def)
    show ?thesis
    proof (cases "requestCount s \<ge> requestsPerSecond cfg")
      case True
      with False wait Cons assms(2) have "s' = s" by (auto simp add: drainLoop_def Let_def)
      with assms(1) show ?thesis by simp
    next
      case below: False
      with False Cons assms(2)
      have s': "s' = s\<lparr>queue := rest, requestCount := requestCount s + 1,
                        started := started s @ [(promise item, lastResetTime s)]\<rparr>"
        by (auto simp add: drainLoop_def Let_def)
      have "\<And>w. int (length (filter (\<lambda>e. snd e = w) (started s @ [(promise item, lastResetTime s)])))
                \<le> requestsPerSecond cfg"
      proof -
        fix w
        show "int (length (filter (\<lambda>e. snd e = w) (started s @ [(promise item, lastResetTime s)])))
                \<le> requestsPerSecond cfg"
        proof (cases "w = lastResetTime s")
          case True
          with cnt below show ?thesis by (simp add: windowStarts_def)
        next
          case False
          with bound[rule_format, of w] show ?thesis by (simp add: windowStarts_def)
        qed
      qed
      with cnt le show ?thesis unfolding s' by (simp add: rateInv_def windowStarts_def)
    qed
  qed
qed

lemma rateInv_processQueue: "rateInv cfg s \<Longrightarrow> rateInv cfg (processQueue cfg now s)"
proof (cases "processing s \<or> queue s = []")
  case True
  assume "rateInv cfg s"
  with True show ?thesis by (simp add: processQueue_def)
next
  case False
  assume r: "rateInv cfg s"
  obtain s' k where d: "drainLoop cfg now (s\<lparr>processing := True\<rparr>) = (s', k)"
    by (cases "drainLoop cfg now (s\<lparr>processing := True\<rparr>)")
  from r have "rateInv cfg (s\<lparr>processing := True\<rparr>)"
    by (simp add: rateInv_def windowStarts_def)
  then have "rateInv cfg s'" using d by (rule rateInv_drainLoop)
  then have "rateInv cfg (s'\<lparr>loops := loops s' @ [k]\<rparr>)"
    by (simp add: rateInv_def windowStarts_def)
  with False d show ?thesis by (simp add: processQueue_def)
qed

lemma rateInv_enqueue:
  "rateInv cfg s \<Longrightarrow> rateInv cfg (enqueue cfg now dat prio ident generated s)"
proof (cases "maxQueueSize cfg \<le> pendingCount s")
  case True
  assume "rateInv cfg s"
  with True show ?thesis
    by (simp add: enqueue_def
        rateInv_def windowStarts_def)
next
  case False
  assume r: "rateInv cfg s"
  define item where "item = \<lparr>itemId = (case ident of None \<Rightarrow> generated
                                        | Some i \<Rightarrow> if i = [] then generated else i),
                      priority = clampPriority cfg prio, timestamp = now, payload = dat,
                      promise = promises s\<rparr>"
  define s2 where "s2 = s\<lparr>queue := insertByPriority item (queue s),
                           promises := Suc (promises s),
                           pendingCount := pendingCount s + 1\<rparr>"
  have e: "enqueue cfg now dat prio ident generated s = processQueue cfg now s2"
    using False by (simp add: enqueue_def Let_def s2_def item_def)
  from r have "rateInv cfg s2" by (simp add: rateInv_def windowStarts_def s2_def)
  then show ?thesis unfolding e by (rule rateInv_processQueue)
qed

lemma rateInv_sleepElapsed: "rateInv cfg s \<Longrightarrow> rateInv cfg (sleepElapsed cfg now i s)"
proof (cases "i < length (loops s) \<and> loops s ! i = AwaitSleep")
  case False
  assume "rateInv cfg s"
  with False show ?thesis by (auto simp add: sleepElapsed_def)
next
  case True
  assume r: "rateInv cfg s"
  obtain s' k where d: "drainLoop cfg now s = (s', k)"
    by (cases "drainLoop cfg now s")
  from r d have "rateInv cfg s'" by (rule rateInv_drainLoop)
  then have "rateInv cfg (s'\<lparr>loops := (loops s')[i := k]\<rparr>)"
    by (simp add: rateInv_def windowStarts_def)
  with True d show ?thesis by (simp add: sleepElapsed_def)
qed

lemma rateInv_workSettled: "rateInv cfg s \<Longrightarrow> rateInv cfg (workSettled cfg now i outcome s)"
proof (cases "i < length (loops s) \<and> (\<exists>item. loops s ! i = AwaitWork item)")
  case False
  assume "rateInv cfg s"
  with False show ?thesis by (simp add: workSettled_idle)
next
  case True
  assume r: "rateInv cfg s"
  from True obtain item where it: "loops s ! i = AwaitWork item" and i: "i < length (loops s)"
    by blast
  define s2 where "s2 = s\<lparr>calls := calls s @
                             [(promise item,
                               case outcome of
                                 Inr result \<Rightarrow> Resolved result
                               | Inl err \<Rightarrow> Rejected (WorkError err))],
                           pendingCount := pendingCount s - 1\<rparr>"
  obtain s3 k where d: "drainLoop cfg now s2 = (s3, k)"
    by (cases "drainLoop cfg now s2")
  have w: "workSettled cfg now i outcome s = s3\<lparr>loops := (loops s3)[i := k]\<rparr>"
    using i it d by (simp add: workSettled_def s2_def)
  from r have "rateInv cfg s2" by (simp add: rateInv_def windowStarts_def s2_def)
  then have "rateInv cfg s3" using d by (rule rateInv_drainLoop)
  then show ?thesis unfolding w
    by (simp add: rateInv_def windowStarts_def)
qed

lemma rateInv_step: "rateInv cfg s \<Longrightarrow> rateInv cfg (step cfg s e)"
proof (cases e)
  case (Enqueue now dat prio ident generated)
  assume "rateInv cfg s"
  with Enqueue show ?thesis by (simp add: rateInv_enqueue)
next
  case Clear
  assume "rateInv cfg s"
  with Clear show ?thesis by (simp add: clear_def rateInv_def windowStarts_def)
next
  case (RejectTimerFires p)
  assume "rateInv cfg s"
  with RejectTimerFires show ?thesis by (simp add: rejectTimerFires_def rateInv_def windowStarts_def)
next
  case (SleepElapsed now i)
  assume "rateInv cfg s"
  with SleepElapsed show ?thesis by (simp add: rateInv_sleepElapsed)
next
  case (WorkSettled now i outcome)
  assume "rateInv cfg s"
  with WorkSettled show ?thesis by (simp add: rateInv_workSettled)
qed

lemma rateInv_run: "rateInv cfg s \<Longrightarrow> rateInv cfg (run cfg s evs)"
  by (induction evs arbitrary: s) (simp_all add: rateInv_step)

lemma rateInv_initial: "0 \<le> requestsPerSecond cfg \<Longrightarrow> rateInv cfg (initial t0)"
  by (simp add: rateInv_def windowStarts_def initial_def)

text \<open>The order of service: the units started so far, then the queue.\<close>

lemma service_drainLoop: "drainLoop cfg now s = (s', k) \<Longrightarrow> service s' = service s"
  by (auto simp: drainLoop_def Let_def service_def split: list.splits if_splits)

lemma set_insertByPriority: "set (insertByPriority item q) = insert item (set q)"
  by (induction q) auto

lemma distinct_insertByPriority:
  "distinct (map promise (insertByPriority item q))
     \<longleftrightarrow> promise item \<notin> promise ` set q \<and> distinct (map promise q)"
  by (induction q) (auto simp: set_insertByPriority)

lemma service_processQueue: "service (processQueue cfg now s) = service s"
proof (cases "processing s \<or> queue s = []")
  case True
  then show ?thesis by (simp add: processQueue_def)
next
  case False
  obtain s' k where d: "drainLoop cfg now (s\<lparr>processing := True\<rparr>) = (s', k)"
    by (cases "drainLoop cfg now (s\<lparr>processing := True\<rparr>)")
  from service_drainLoop[OF d] False d show ?thesis
    by (simp add: processQueue_def service_def)
qed

lemma service_sleepElapsed: "service (sleepElapsed cfg now i s) = service s"
proof (cases "drainLoop cfg now s")
  case (Pair s' k)
  with service_drainLoop[OF Pair] show ?thesis by (simp add: sleepElapsed_def service_def)
qed

lemma service_workSettled: "service (workSettled cfg now i outcome s) = service s"
proof (cases "i < length (loops s) \<and> (\<exists>item. loops s ! i = AwaitWork item)")
  case False
  then show ?thesis by (simp add: workSettled_idle)
next
  case True
  then obtain item where it: "loops s ! i = AwaitWork item" and i: "i < length (loops s)"
    by blast
  define s2 where "s2 = s\<lparr>calls := calls s @
                             [(promise item,
                               case outcome of
                                 Inr result \<Rightarrow> Resolved result
                               | Inl err \<Rightarrow> Rejected (WorkError err))],
                           pendingCount := pendingCount s - 1\<rparr>"
  obtain s3 k where d: "drainLoop cfg now s2 = (s3, k)"
    by (cases "drainLoop cfg now s2")
  have w: "workSettled cfg now i outcome s = s3\<lparr>loops := (loops s3)[i := k]\<rparr>"
    using i it d by (simp add: workSettled_def s2_def)
  from service_drainLoop[OF d] show ?thesis unfolding w by (simp add: service_def s2_def)
qed

lemma service_insert:
  "set (service (s\<lparr>queue := insertByPriority item (queue s)\<rparr>))
     = insert (promise item) (set (service s))"
  "distinct (service (s\<lparr>queue := insertByPriority item (queue s)\<rparr>))
     \<longleftrightarrow> promise item \<notin> set (service s) \<and> distinct (service s)"
  by (auto simp add: service_def distinct_insertByPriority set_insertByPriority)

lemma serviceInv_step: "serviceInv s \<Longrightarrow> serviceInv (step cfg s e)"
proof (cases e)
  case (Enqueue now dat prio ident generated)
  assume inv: "serviceInv s"
  show ?thesis
  proof (cases "maxQueueSize cfg \<le> pendingCount s")
    case True
    have "service (s\<lparr>rejectTimers := rejectTimers s @ [promises s],
                     promises := Suc (promises s)\<rparr>) = service s"
      by (simp add: service_def)
    with inv True Enqueue show ?thesis
      by (auto simp add: enqueue_def serviceInv_def intro: less_SucI)
  next
    case False
    define item where "item = \<lparr>itemId = (case ident of None \<Rightarrow> generated
                                        | Some i \<Rightarrow> if i = [] then generated else i),
                      priority = clampPriority cfg prio, timestamp = now, payload = dat,
                      promise = promises s\<rparr>"
    define s1 where "s1 = s\<lparr>queue := insertByPriority item (queue s)\<rparr>"
    define s2 where "s2 = s1\<lparr>promises := Suc (promises s),
                            pendingCount := pendingCount s + 1\<rparr>"
    have e: "enqueue cfg now dat prio ident generated s = processQueue cfg now s2"
      using False by (simp add: enqueue_def Let_def s2_def s1_def item_def)
    have p: "promise item = promises s" by (simp add: item_def)
    have sv: "service s2 = service s1" by (simp add: service_def s2_def)
    have ps: "promises s2 = Suc (promises s)" by (simp add: s2_def)
    from inv have "serviceInv s2"
      unfolding serviceInv_def sv ps unfolding s1_def service_insert p
      by (auto intro: less_SucI)
    then show ?thesis
      unfolding Enqueue step.simps e
      by (simp add: serviceInv_def service_processQueue promises_processQueue)
  qed
next
  case Clear
  assume "serviceInv s"
  with Clear show ?thesis by (simp add: clear_def serviceInv_def service_def)
next
  case (RejectTimerFires p)
  assume "serviceInv s"
  with RejectTimerFires show ?thesis by (simp add: rejectTimerFires_def serviceInv_def service_def)
next
  case (SleepElapsed now i)
  assume "serviceInv s"
  with SleepElapsed show ?thesis
    by (simp add: serviceInv_def service_sleepElapsed promises_sleepElapsed)
next
  case (WorkSettled now i outcome)
  assume "serviceInv s"
  with WorkSettled show ?thesis
    by (simp add: serviceInv_def service_workSettled promises_workSettled)
qed

lemma serviceInv_run: "serviceInv s \<Longrightarrow> serviceInv (run cfg s evs)"
  by (induction evs arbitrary: s) (simp_all add: serviceInv_step)

lemma serviceInv_reachable: "serviceInv (run cfg (initial t0) evs)"
  by (rule serviceInv_run) (simp add: serviceInv_def service_def initial_def)

text \<open>
  C4. With a window limit \<open>N = requestsPerSecond\<close> that is not negative, in every state
  the analyzer can reach: at most \<open>N\<close> units began execution in any one rate window (a
  window is named by the value \<open>lastResetTime\<close> had when the unit was shifted off the
  queue; a reset gives it a new, later value); \<open>requestCount\<close> is the number of units
  that began execution in the current window, so it went up by exactly one with each of
  them, in the same synchronous run that shifts the unit off the queue and starts its
  analysis; it never exceeds \<open>N\<close>; and no unit begins execution twice.
\<close>

theorem rate_bound:
  assumes "0 \<le> requestsPerSecond cfg"
  shows "int (windowStarts (run cfg (initial t0) evs) w) \<le> requestsPerSecond cfg
     \<and> requestCount (run cfg (initial t0) evs)
         = int (windowStarts (run cfg (initial t0) evs) (lastResetTime (run cfg (initial t0) evs)))
     \<and> requestCount (run cfg (initial t0) evs) \<le> requestsPerSecond cfg
     \<and> distinct (map fst (started (run cfg (initial t0) evs)))"
proof -
  let ?s = "run cfg (initial t0) evs"
  from assms have "rateInv cfg ?s" by (simp add: rateInv_run rateInv_initial)
  then have 1: "int (windowStarts ?s w) \<le> requestsPerSecond cfg"
    and 2: "requestCount ?s = int (windowStarts ?s (lastResetTime ?s))"
    and 3: "int (windowStarts ?s (lastResetTime ?s)) \<le> requestsPerSecond cfg"
    by (simp_all add: rateInv_def)
  have "serviceInv ?s" by (rule serviceInv_reachable)
  then have 4: "distinct (map fst (started ?s))" by (simp add: serviceInv_def service_def)
  from 1 2 3 4 show ?thesis by simp
qed

theorem rate_bound_witness:
  "0 \<le> requestsPerSecond cfgC
   \<and> started (run cfgC (initial 0)
        [Enqueue 0 JNull 0 None ''a'', Enqueue 0 JNull 0 None ''b'', Enqueue 0 JNull 0 None ''c'',
         WorkSettled 100 0 (Inr ''r''), WorkSettled 200 0 (Inr ''r''),
         SleepElapsed 1000 0]) = [(0, 0), (1, 0), (2, 1000)]
   \<and> windowStarts (run cfgC (initial 0)
        [Enqueue 0 JNull 0 None ''a'', Enqueue 0 JNull 0 None ''b'', Enqueue 0 JNull 0 None ''c'',
         WorkSettled 100 0 (Inr ''r''), WorkSettled 200 0 (Inr ''r''),
         SleepElapsed 1000 0]) 0 = 2
   \<and> requestCount (run cfgC (initial 0)
        [Enqueue 0 JNull 0 None ''a'', Enqueue 0 JNull 0 None ''b'', Enqueue 0 JNull 0 None ''c'',
         WorkSettled 100 0 (Inr ''r''), WorkSettled 200 0 (Inr ''r''),
         SleepElapsed 1000 0]) = 1"
  using rate_bound[of cfgC 0
        "[Enqueue 0 JNull 0 None ''a'', Enqueue 0 JNull 0 None ''b'', Enqueue 0 JNull 0 None ''c'',
         WorkSettled 100 0 (Inr ''r''), WorkSettled 200 0 (Inr ''r''),
         SleepElapsed 1000 0]" 0]
  by (simp add: cfgC_def run_defs windowStarts_def)

section \<open>Order of service\<close>

lemma precedes_key: "precedes a b \<longleftrightarrow> serviceKey a < serviceKey b"
  by (auto simp add: precedes_def serviceKey_def less_prod_def)

lemma precedes_trans_le:
  "precedes a b \<Longrightarrow> priority b \<le> priority a"
  by (auto simp add: precedes_def)

lemma sorted_insertByPriority:
  "sorted_wrt precedes q \<Longrightarrow> \<forall>y \<in> set q. promise y < promise x
     \<Longrightarrow> sorted_wrt precedes (insertByPriority x q)"
proof (induction q)
  case Nil
  then show ?case by simp
next
  case (Cons a q)
  show ?case
  proof (cases "priority x > priority a")
    case True
    have "\<forall>y \<in> set (a # q). precedes x y"
    proof
      fix y assume "y \<in> set (a # q)"
      with Cons.prems(1) have "priority y \<le> priority a"
        by (auto dest: precedes_trans_le)
      with True show "precedes x y" by (simp add: precedes_def)
    qed
    with True Cons.prems(1) show ?thesis by simp
  next
    case False
    from Cons.prems have "sorted_wrt precedes (insertByPriority x q)"
      using Cons.IH by simp
    moreover have "precedes a x" using False Cons.prems(2) by (auto simp add: precedes_def)
    ultimately show ?thesis using False Cons.prems(1)
      by (auto simp add: set_insertByPriority)
  qed
qed

lemma queueInv_drainLoop: "queueInv s \<Longrightarrow> drainLoop cfg now s = (s', k) \<Longrightarrow> queueInv s'"
  by (auto simp: drainLoop_def Let_def queueInv_def split: list.splits if_splits)

lemma queueInv_processQueue: "queueInv s \<Longrightarrow> queueInv (processQueue cfg now s)"
proof (cases "processing s \<or> queue s = []")
  case True
  assume "queueInv s"
  with True show ?thesis by (simp add: processQueue_def)
next
  case False
  assume r: "queueInv s"
  obtain s' k where d: "drainLoop cfg now (s\<lparr>processing := True\<rparr>) = (s', k)"
    by (cases "drainLoop cfg now (s\<lparr>processing := True\<rparr>)")
  from r have "queueInv (s\<lparr>processing := True\<rparr>)" by (simp add: queueInv_def)
  then have "queueInv s'" using d by (rule queueInv_drainLoop)
  then have "queueInv (s'\<lparr>loops := loops s' @ [k]\<rparr>)" by (simp add: queueInv_def)
  with False d show ?thesis by (simp add: processQueue_def)
qed

lemma queueInv_enqueue:
  "queueInv s \<Longrightarrow> queueInv (enqueue cfg now dat prio ident generated s)"
proof (cases "maxQueueSize cfg \<le> pendingCount s")
  case True
  assume "queueInv s"
  with True show ?thesis by (auto simp add: enqueue_def queueInv_def intro: less_SucI)
next
  case False
  assume r: "queueInv s"
  define item where "item = \<lparr>itemId = (case ident of None \<Rightarrow> generated
                                        | Some i \<Rightarrow> if i = [] then generated else i),
                      priority = clampPriority cfg prio, timestamp = now, payload = dat,
                      promise = promises s\<rparr>"
  define s2 where "s2 = s\<lparr>queue := insertByPriority item (queue s),
                           promises := Suc (promises s),
                           pendingCount := pendingCount s + 1\<rparr>"
  have e: "enqueue cfg now dat prio ident generated s = processQueue cfg now s2"
    using False by (simp add: enqueue_def Let_def s2_def item_def)
  have p: "promise item = promises s" by (simp add: item_def)
  from r have "sorted_wrt precedes (insertByPriority item (queue s))"
    by (simp add: queueInv_def sorted_insertByPriority p)
  with r have "queueInv s2"
    by (auto simp add: queueInv_def s2_def set_insertByPriority p intro: less_SucI)
  then show ?thesis unfolding e by (rule queueInv_processQueue)
qed

lemma queueInv_sleepElapsed: "queueInv s \<Longrightarrow> queueInv (sleepElapsed cfg now i s)"
proof (cases "i < length (loops s) \<and> loops s ! i = AwaitSleep")
  case False
  assume "queueInv s"
  with False show ?thesis by (auto simp add: sleepElapsed_def)
next
  case True
  assume r: "queueInv s"
  obtain s' k where d: "drainLoop cfg now s = (s', k)"
    by (cases "drainLoop cfg now s")
  from r d have "queueInv s'" by (rule queueInv_drainLoop)
  then have "queueInv (s'\<lparr>loops := (loops s')[i := k]\<rparr>)" by (simp add: queueInv_def)
  with True d show ?thesis by (simp add: sleepElapsed_def)
qed

lemma queueInv_workSettled: "queueInv s \<Longrightarrow> queueInv (workSettled cfg now i outcome s)"
proof (cases "i < length (loops s) \<and> (\<exists>item. loops s ! i = AwaitWork item)")
  case False
  assume "queueInv s"
  with False show ?thesis by (simp add: workSettled_idle)
next
  case True
  assume r: "queueInv s"
  from True obtain item where it: "loops s ! i = AwaitWork item" and i: "i < length (loops s)"
    by blast
  define s2 where "s2 = s\<lparr>calls := calls s @
                             [(promise item,
                               case outcome of
                                 Inr result \<Rightarrow> Resolved result
                               | Inl err \<Rightarrow> Rejected (WorkError err))],
                           pendingCount := pendingCount s - 1\<rparr>"
  obtain s3 k where d: "drainLoop cfg now s2 = (s3, k)"
    by (cases "drainLoop cfg now s2")
  have w: "workSettled cfg now i outcome s = s3\<lparr>loops := (loops s3)[i := k]\<rparr>"
    using i it d by (simp add: workSettled_def s2_def)
  from r have "queueInv s2" by (simp add: queueInv_def s2_def)
  then have "queueInv s3" using d by (rule queueInv_drainLoop)
  then show ?thesis unfolding w by (simp add: queueInv_def)
qed

lemma queueInv_step: "queueInv s \<Longrightarrow> queueInv (step cfg s e)"
proof (cases e)
  case (Enqueue now dat prio ident generated)
  assume "queueInv s"
  with Enqueue show ?thesis by (simp add: queueInv_enqueue)
next
  case Clear
  assume "queueInv s"
  with Clear show ?thesis by (simp add: clear_def queueInv_def)
next
  case (RejectTimerFires p)
  assume "queueInv s"
  with RejectTimerFires show ?thesis by (simp add: rejectTimerFires_def queueInv_def)
next
  case (SleepElapsed now i)
  assume "queueInv s"
  with SleepElapsed show ?thesis by (simp add: queueInv_sleepElapsed)
next
  case (WorkSettled now i outcome)
  assume "queueInv s"
  with WorkSettled show ?thesis by (simp add: queueInv_workSettled)
qed

lemma queueInv_run: "queueInv s \<Longrightarrow> queueInv (run cfg s evs)"
  by (induction evs arbitrary: s) (simp_all add: queueInv_step)

lemma queueInv_reachable: "queueInv (run cfg (initial t0) evs)"
  by (rule queueInv_run) (simp add: queueInv_def initial_def)

lemma filter_insertByPriority:
  "promise item \<notin> P \<Longrightarrow>
     filter (\<lambda>p. p \<in> P) (map promise (insertByPriority item q))
       = filter (\<lambda>p. p \<in> P) (map promise q)"
  by (induction q) simp_all

lemma filter_service_step:
  assumes "\<forall>p \<in> P. p < promises s"
  shows "prefix (filter (\<lambda>p. p \<in> P) (service (step cfg s e)))
                (filter (\<lambda>p. p \<in> P) (service s))"
proof (cases e)
  case (Enqueue now dat prio ident generated)
  show ?thesis
  proof (cases "maxQueueSize cfg \<le> pendingCount s")
    case True
    with Enqueue show ?thesis by (simp add: enqueue_def service_def)
  next
    case False
    define item where "item = \<lparr>itemId = (case ident of None \<Rightarrow> generated
                                        | Some i \<Rightarrow> if i = [] then generated else i),
                      priority = clampPriority cfg prio, timestamp = now, payload = dat,
                      promise = promises s\<rparr>"
    define s2 where "s2 = s\<lparr>queue := insertByPriority item (queue s),
                           promises := Suc (promises s),
                           pendingCount := pendingCount s + 1\<rparr>"
    have e: "enqueue cfg now dat prio ident generated s = processQueue cfg now s2"
      using False by (simp add: enqueue_def Let_def s2_def item_def)
    have "promise item \<notin> P" using assms by (auto simp add: item_def)
    then have "filter (\<lambda>p. p \<in> P) (service s2) = filter (\<lambda>p. p \<in> P) (service s)"
      by (simp add: service_def s2_def filter_insertByPriority)
    then show ?thesis
      unfolding Enqueue step.simps e by (simp add: service_processQueue)
  qed
next
  case Clear
  then show ?thesis by (simp add: clear_def service_def)
next
  case (RejectTimerFires p)
  then show ?thesis by (simp add: rejectTimerFires_def service_def)
next
  case (SleepElapsed now i)
  then show ?thesis by (simp add: service_sleepElapsed)
next
  case (WorkSettled now i outcome)
  then show ?thesis by (simp add: service_workSettled)
qed

lemma filter_service_run:
  "\<forall>p \<in> P. p < promises s \<Longrightarrow>
     prefix (filter (\<lambda>p. p \<in> P) (service (run cfg s evs)))
            (filter (\<lambda>p. p \<in> P) (service s))"
proof (induction evs arbitrary: s)
  case Nil
  show ?case by simp
next
  case (Cons e evs)
  from Cons.prems promises_step_mono[of s cfg e]
  have "\<forall>p \<in> P. p < promises (step cfg s e)" by fastforce
  from Cons.IH[OF this] filter_service_step[OF Cons.prems, of cfg e]
  show ?case by (auto intro: prefix_order.trans)
qed

lemma start_order:
  assumes "\<forall>p \<in> P. p < promises s"
  shows "prefix (filter (\<lambda>p. p \<in> P) (map fst (started (run cfg s evs))))
                (filter (\<lambda>p. p \<in> P) (service s))"
proof -
  have "prefix (filter (\<lambda>p. p \<in> P) (map fst (started (run cfg s evs))))
               (filter (\<lambda>p. p \<in> P) (service (run cfg s evs)))"
    by (simp add: service_def)
  then show ?thesis using filter_service_run[OF assms, of cfg evs]
    by (rule prefix_order.trans)
qed

text \<open>Units leave the service order only, and a unit that left does not come back.\<close>

lemma started_drainLoop: "drainLoop cfg now s = (s', k) \<Longrightarrow> prefix (started s) (started s')"
  by (auto simp: drainLoop_def Let_def split: list.splits if_splits)

lemma started_processQueue: "prefix (started s) (started (processQueue cfg now s))"
proof (cases "processing s \<or> queue s = []")
  case True
  then show ?thesis by (simp add: processQueue_def)
next
  case False
  obtain s' k where d: "drainLoop cfg now (s\<lparr>processing := True\<rparr>) = (s', k)"
    by (cases "drainLoop cfg now (s\<lparr>processing := True\<rparr>)")
  from started_drainLoop[OF d] False d show ?thesis by (simp add: processQueue_def)
qed

lemma started_enqueue: "prefix (started s) (started (enqueue cfg now dat prio ident generated s))"
proof (cases "maxQueueSize cfg \<le> pendingCount s")
  case True
  then show ?thesis by (simp add: enqueue_def)
next
  case False
  define item where "item = \<lparr>itemId = (case ident of None \<Rightarrow> generated
                                        | Some i \<Rightarrow> if i = [] then generated else i),
                      priority = clampPriority cfg prio, timestamp = now, payload = dat,
                      promise = promises s\<rparr>"
  define s2 where "s2 = s\<lparr>queue := insertByPriority item (queue s),
                           promises := Suc (promises s),
                           pendingCount := pendingCount s + 1\<rparr>"
  have e: "enqueue cfg now dat prio ident generated s = processQueue cfg now s2"
    using False by (simp add: enqueue_def Let_def s2_def item_def)
  have "started s2 = started s" by (simp add: s2_def)
  with started_processQueue[of s2 cfg now] show ?thesis unfolding e by simp
qed

text \<open>What an admitted \<open>enqueue\<close> does to the service order.\<close>

lemma service_enqueue:
  assumes "pendingCount s < maxQueueSize cfg"
  shows "service (enqueue cfg now dat prio ident generated s)
           = map fst (started s)
             @ map promise (insertByPriority
                 \<lparr>itemId = (case ident of None \<Rightarrow> generated
                              | Some i \<Rightarrow> if i = [] then generated else i),
                  priority = clampPriority cfg prio, timestamp = now, payload = dat,
                  promise = promises s\<rparr> (queue s))"
proof -
  define item where "item = \<lparr>itemId = (case ident of None \<Rightarrow> generated
                                        | Some i \<Rightarrow> if i = [] then generated else i),
                      priority = clampPriority cfg prio, timestamp = now, payload = dat,
                      promise = promises s\<rparr>"
  define s2 where "s2 = s\<lparr>queue := insertByPriority item (queue s),
                           promises := Suc (promises s),
                           pendingCount := pendingCount s + 1\<rparr>"
  have e: "enqueue cfg now dat prio ident generated s = processQueue cfg now s2"
    using assms by (simp add: enqueue_def Let_def s2_def item_def)
  show ?thesis unfolding e service_processQueue
    by (simp add: service_def s2_def item_def)
qed

lemma newItem_simps:
  "promise (newItem cfg now dat prio ident generated s) = promises s"
  "priority (newItem cfg now dat prio ident generated s) = clampPriority cfg prio"
  by (simp_all add: newItem_def)

lemma enqueue_admitted:
  "pendingCount s < maxQueueSize cfg \<Longrightarrow>
     enqueue cfg now dat prio ident generated s
       = processQueue cfg now
           (s\<lparr>queue := insertByPriority (newItem cfg now dat prio ident generated s) (queue s),
              promises := Suc (promises s),
              pendingCount := pendingCount s + 1\<rparr>)"
  by (simp add: enqueue_def Let_def newItem_def)

lemma queue_processQueue_quiet:
  "started (processQueue cfg now s) = started s \<Longrightarrow> queue (processQueue cfg now s) = queue s"
  by (auto simp: processQueue_def drainLoop_def Let_def split: list.splits if_splits)

lemma queue_processQueue_subset: "set (queue (processQueue cfg now s)) \<subseteq> set (queue s)"
  by (auto simp: processQueue_def drainLoop_def Let_def split: list.splits if_splits)

lemma queue_enqueue_quiet:
  assumes "pendingCount s < maxQueueSize cfg"
    and "started (enqueue cfg now dat prio ident generated s) = started s"
  shows "queue (enqueue cfg now dat prio ident generated s)
           = insertByPriority (newItem cfg now dat prio ident generated s) (queue s)"
  using assms(2) unfolding enqueue_admitted[OF assms(1)]
  using queue_processQueue_quiet[of cfg now
      "s\<lparr>queue := insertByPriority (newItem cfg now dat prio ident generated s) (queue s),
         promises := Suc (promises s), pendingCount := pendingCount s + 1\<rparr>"]
  by simp

lemma same_keys_same_promises:
  assumes "sorted_wrt precedes l" and "sorted_wrt precedes xs"
    and "serviceKey ` set l = serviceKey ` set xs"
  shows "map promise l = map promise xs"
proof -
  have "precedes = (\<lambda>x y. serviceKey x < serviceKey y)"
    by (intro ext) (rule precedes_key)
  then have "sorted_wrt (<) (map serviceKey l)" "sorted_wrt (<) (map serviceKey xs)"
    using assms(1,2) by (simp_all add: sorted_wrt_map)
  moreover have "set (map serviceKey l) = set (map serviceKey xs)" using assms(3) by simp
  ultimately have "map serviceKey l = map serviceKey xs" by (metis strict_sorted_equal)
  then have "map (snd \<circ> serviceKey) l = map (snd \<circ> serviceKey) xs"
    by (metis map_map)
  moreover have "snd \<circ> serviceKey = promise" by (auto simp add: serviceKey_def)
  ultimately show ?thesis by simp
qed

lemma filter_none: "set xs \<inter> P = {} \<Longrightarrow> filter (\<lambda>x. x \<in> P) xs = []"
  by (induction xs) auto

lemma filter_one: "distinct xs \<Longrightarrow> set xs \<inter> P = {x} \<Longrightarrow> filter (\<lambda>y. y \<in> P) xs = [x]"
proof (induction xs)
  case Nil
  then show ?case by simp
next
  case (Cons a xs)
  show ?case
  proof (cases "a \<in> P")
    case True
    with Cons.prems have ax: "a = x" by auto
    with Cons.prems have "set xs \<inter> P = {}" by auto
    with True ax show ?thesis by (simp add: filter_none)
  next
    case False
    with Cons.prems have "set xs \<inter> P = {x}" by auto
    with Cons False show ?thesis by simp
  qed
qed

text \<open>
  Three units submitted while nothing is dequeued begin execution in the order that
  inserting them into an empty queue gives.
\<close>

lemma quiet_batch_order:
  assumes a_def: "a = promises s"
    and sA_def: "sA = enqueue cfg nA dA pA iA gA s"
    and sB_def: "sB = enqueue cfg nB dB pB iB gB sA"
    and sC_def: "sC = enqueue cfg nC dC pC iC gC sB"
    and itA_def: "itA = newItem cfg nA dA pA iA gA s"
    and itB_def: "itB = newItem cfg nB dB pB iB gB sA"
    and itC_def: "itC = newItem cfg nC dC pC iC gC sB"
    and q: "queueInv s" and sv: "serviceInv s"
    and room: "pendingCount s + 3 \<le> maxQueueSize cfg"
    and quiet: "started sC = started s"
  shows "prefix (filter (\<lambda>p. p \<in> {a, Suc a, Suc (Suc a)}) (map fst (started (run cfg sC evs))))
                (map promise (insertByPriority itC (insertByPriority itB (insertByPriority itA []))))"
proof -
  let ?P = "{a, Suc a, Suc (Suc a)}"
  let ?xs = "insertByPriority itC (insertByPriority itB (insertByPriority itA []))"
  have admA: "pendingCount s < maxQueueSize cfg" using room by simp
  then have pcA: "pendingCount sA = pendingCount s + 1"
    by (simp add: sA_def pendingCount_enqueue)
  then have admB: "pendingCount sA < maxQueueSize cfg" using room by simp
  then have pcB: "pendingCount sB = pendingCount s + 2"
    using pcA by (simp add: sB_def pendingCount_enqueue)
  then have admC: "pendingCount sB < maxQueueSize cfg" using room by simp
  have prA: "promises sA = Suc a" by (simp add: sA_def a_def promises_enqueue)
  have prB: "promises sB = Suc (Suc a)" by (simp add: sB_def prA promises_enqueue)
  have prC: "promises sC = Suc (Suc (Suc a))" by (simp add: sC_def prB promises_enqueue)
  have p1: "prefix (started s) (started sA)" unfolding sA_def by (rule started_enqueue)
  have p2: "prefix (started sA) (started sB)" unfolding sB_def by (rule started_enqueue)
  have p3: "prefix (started sB) (started sC)" unfolding sC_def by (rule started_enqueue)
  from p2 p3 quiet have "prefix (started sA) (started s)"
    by (metis prefix_order.trans)
  with p1 have stA: "started sA = started s" by (metis prefix_order.antisym)
  from p3 quiet have "prefix (started sB) (started s)" by simp
  with p1 p2 have stB: "started sB = started s"
    by (metis prefix_order.antisym prefix_order.trans)
  have qA: "queue sA = insertByPriority itA (queue s)"
    unfolding sA_def itA_def using admA stA[unfolded sA_def] by (rule queue_enqueue_quiet)
  have qB: "queue sB = insertByPriority itB (queue sA)"
    unfolding sB_def itB_def using admB stB[unfolded sB_def, folded stA]
    by (rule queue_enqueue_quiet)
  have qC: "queue sC = insertByPriority itC (queue sB)"
    unfolding sC_def itC_def using admC quiet[unfolded sC_def, folded stB]
    by (rule queue_enqueue_quiet)
  have items: "promise itA = a" "promise itB = Suc a" "promise itC = Suc (Suc a)"
    by (simp_all add: itA_def itB_def itC_def newItem_simps a_def prA prB)
  have qsC: "queueInv sC"
    unfolding sC_def sB_def sA_def by (intro queueInv_enqueue q)
  then have sorted: "sorted_wrt precedes (queue sC)" by (simp add: queueInv_def)
  have old: "\<forall>it \<in> set (queue s). promise it < a" using q by (simp add: queueInv_def a_def)
  have setq: "set (queue sC) = {itA, itB, itC} \<union> set (queue s)"
    by (auto simp add: qA qB qC set_insertByPriority)
  let ?l = "filter (\<lambda>it. promise it \<in> ?P) (queue sC)"
  have "set ?l = {itA, itB, itC}" using old items by (auto simp add: setq)
  moreover have "set ?xs = {itA, itB, itC}" by (auto simp add: set_insertByPriority)
  ultimately have keys: "serviceKey ` set ?l = serviceKey ` set ?xs" by simp
  have "sorted_wrt precedes (insertByPriority itA [])" by simp
  then have "sorted_wrt precedes (insertByPriority itB (insertByPriority itA []))"
    by (rule sorted_insertByPriority) (simp add: items)
  then have "sorted_wrt precedes ?xs"
    by (rule sorted_insertByPriority) (auto simp add: items set_insertByPriority)
  with sorted_wrt_filter[OF sorted] keys
  have sel: "map promise ?l = map promise ?xs"
    by (intro same_keys_same_promises)
  have "filter (\<lambda>p. p \<in> ?P) (map promise (queue sC)) = map promise ?l"
    by (simp only: filter_map comp_def)
  also note sel
  finally have fq: "filter (\<lambda>p. p \<in> ?P) (map promise (queue sC)) = map promise ?xs" .
  have "\<forall>x \<in> set (map fst (started s)). x < a"
    using sv by (auto simp add: serviceInv_def service_def a_def)
  then have "set (map fst (started s)) \<inter> ?P = {}" by fastforce
  then have "filter (\<lambda>p. p \<in> ?P) (map fst (started sC)) = []"
    unfolding quiet by (rule filter_none)
  with fq have "filter (\<lambda>p. p \<in> ?P) (service sC) = map promise ?xs"
    by (simp add: service_def)
  moreover have "\<forall>p \<in> ?P. p < promises sC" by (simp add: prC)
  ultimately show ?thesis using start_order[of ?P sC cfg evs] by simp
qed

text \<open>A(2), B(0), C(1) submitted while nothing is dequeued.\<close>

lemma three_tiers_order:
  assumes a_def: "a = promises s"
    and sA_def: "sA = enqueue cfg nA dA 2 iA gA s"
    and sB_def: "sB = enqueue cfg nB dB 0 iB gB sA"
    and sC_def: "sC = enqueue cfg nC dC 1 iC gC sB"
    and q: "queueInv s" and sv: "serviceInv s"
    and lv: "3 \<le> priorityLevels cfg"
    and room: "pendingCount s + 3 \<le> maxQueueSize cfg"
    and quiet: "started sC = started s"
  shows "prefix (filter (\<lambda>p. p \<in> {a, Suc a, Suc (Suc a)}) (map fst (started (run cfg sC evs))))
                [a, Suc (Suc a), Suc a]"
proof -
  have prA: "promises sA = Suc a" by (simp add: sA_def a_def promises_enqueue)
  have prB: "promises sB = Suc (Suc a)" by (simp add: sB_def prA promises_enqueue)
  have "map promise (insertByPriority (newItem cfg nC dC 1 iC gC sB)
          (insertByPriority (newItem cfg nB dB 0 iB gB sA)
             (insertByPriority (newItem cfg nA dA 2 iA gA s) [])))
        = [a, Suc (Suc a), Suc a]"
    using lv by (simp add: newItem_simps clampPriority_def a_def prA prB)
  with quiet_batch_order[OF a_def sA_def sB_def sC_def refl refl refl q sv room quiet, of evs]
  show ?thesis by simp
qed

text \<open>An item keeps the priority it was created with.\<close>

lemma queue_drainLoop_subset: "drainLoop cfg now s = (s', k) \<Longrightarrow> set (queue s') \<subseteq> set (queue s)"
  by (auto simp: drainLoop_def Let_def split: list.splits if_splits)

lemma queue_step_subset:
  "set (queue (step cfg s e)) \<subseteq> set (queue s) \<union> {item. promise item = promises s}"
proof (cases e)
  case (Enqueue now dat prio ident generated)
  show ?thesis
  proof (cases "maxQueueSize cfg \<le> pendingCount s")
    case True
    with Enqueue show ?thesis by (simp add: enqueue_def)
  next
    case False
    then have adm: "pendingCount s < maxQueueSize cfg" by simp
    show ?thesis
      unfolding Enqueue step.simps enqueue_admitted[OF adm]
      using queue_processQueue_subset[of cfg now
          "s\<lparr>queue := insertByPriority (newItem cfg now dat prio ident generated s) (queue s),
             promises := Suc (promises s), pendingCount := pendingCount s + 1\<rparr>"]
      by (auto simp add: set_insertByPriority newItem_simps)
  qed
next
  case Clear
  then show ?thesis by (simp add: clear_def)
next
  case (RejectTimerFires p)
  then show ?thesis by (simp add: rejectTimerFires_def)
next
  case (SleepElapsed now i)
  obtain s' k where d: "drainLoop cfg now s = (s', k)" by (cases "drainLoop cfg now s")
  from queue_drainLoop_subset[OF d] d SleepElapsed show ?thesis
    by (auto simp add: sleepElapsed_def)
next
  case (WorkSettled now i outcome)
  show ?thesis
  proof (cases "i < length (loops s) \<and> (\<exists>item. loops s ! i = AwaitWork item)")
    case False
    with WorkSettled show ?thesis by (simp add: workSettled_idle)
  next
    case True
    then obtain item where it: "loops s ! i = AwaitWork item" and i: "i < length (loops s)"
      by blast
    define s2 where "s2 = s\<lparr>calls := calls s @
                             [(promise item,
                               case outcome of
                                 Inr result \<Rightarrow> Resolved result
                               | Inl err \<Rightarrow> Rejected (WorkError err))],
                           pendingCount := pendingCount s - 1\<rparr>"
    obtain s3 k where d: "drainLoop cfg now s2 = (s3, k)"
      by (cases "drainLoop cfg now s2")
    have w: "workSettled cfg now i outcome s = s3\<lparr>loops := (loops s3)[i := k]\<rparr>"
      using i it d by (simp add: workSettled_def s2_def)
    from queue_drainLoop_subset[OF d] show ?thesis
      unfolding WorkSettled step.simps w by (auto simp add: s2_def)
  qed
qed

lemma priority_kept:
  "p < promises s \<Longrightarrow> \<forall>item \<in> set (queue s). promise item = p \<longrightarrow> priority item = v
     \<Longrightarrow> \<forall>item \<in> set (queue (run cfg s evs)). promise item = p \<longrightarrow> priority item = v"
proof (induction evs arbitrary: s)
  case Nil
  then show ?case by simp
next
  case (Cons e evs)
  have 1: "p < promises (step cfg s e)"
    using Cons.prems(1) promises_step_mono[of s cfg e] by simp
  have 2: "\<forall>item \<in> set (queue (step cfg s e)). promise item = p \<longrightarrow> priority item = v"
    using queue_step_subset[of cfg s e] Cons.prems by fastforce
  from Cons.IH[OF 1 2] show ?case by simp
qed

lemma left_service_for_good:
  assumes "p < promises s" and "p \<notin> set (service s)"
  shows "p \<notin> set (service (run cfg s evs))"
proof -
  from assms(1) have "\<forall>x \<in> {p}. x < promises s" by simp
  from filter_service_run[OF this, of cfg evs]
  have "prefix (filter (\<lambda>x. x \<in> {p}) (service (run cfg s evs))) (filter (\<lambda>x. x \<in> {p}) (service s))" .
  moreover have "filter (\<lambda>x. x \<in> {p}) (service s) = []" using assms(2) by (intro filter_none) simp
  ultimately have "filter (\<lambda>x. x \<in> {p}) (service (run cfg s evs)) = []" by simp
  then show ?thesis by (auto simp add: filter_empty_conv)
qed

lemma distinct_map_eq:
  "distinct (map f xs) \<Longrightarrow> x \<in> set xs \<Longrightarrow> y \<in> set xs \<Longrightarrow> f x = f y \<Longrightarrow> x = y"
  by (simp add: distinct_map inj_on_def)

text \<open>D and E of one tier, D submitted first.\<close>

lemma same_tier_order:
  assumes d_def: "d = promises s"
    and sD_def: "sD = enqueue cfg nD dD prio iD gD s"
    and s1_def: "s1 = run cfg sD evs1"
    and e_def: "e = promises s1"
    and sE_def: "sE = enqueue cfg nE dE prio iE gE s1"
    and q: "queueInv s" and sv: "serviceInv s"
    and admD: "pendingCount s < maxQueueSize cfg"
    and admE: "pendingCount s1 < maxQueueSize cfg"
  shows "prefix (filter (\<lambda>p. p \<in> {d, e}) (map fst (started (run cfg sE evs2)))) [d, e]
         \<or> d \<notin> set (service (run cfg sE evs2))"
proof -
  let ?P = "{d, e}"
  define itD where "itD = newItem cfg nD dD prio iD gD s"
  define itE where "itE = newItem cfg nE dE prio iE gE s1"
  have prD: "promises sD = Suc d" by (simp add: sD_def d_def promises_enqueue)
  have de: "d < e" using promises_run_mono[of sD cfg evs1] prD by (simp add: e_def s1_def)
  have prE: "promises sE = Suc e" by (simp add: sE_def e_def promises_enqueue)
  have qD: "queueInv sD" unfolding sD_def by (intro queueInv_enqueue q)
  have svD: "serviceInv sD" unfolding sD_def using serviceInv_step[OF sv, of cfg "Enqueue nD dD prio iD gD"]
    by simp
  have q1: "queueInv s1" unfolding s1_def by (intro queueInv_run qD)
  have sv1: "serviceInv s1" unfolding s1_def by (intro serviceInv_run svD)
  have fresh: "e \<notin> set (service s1)" using sv1 by (auto simp add: serviceInv_def e_def)
  have dist1: "distinct (service s1)" using sv1 by (simp add: serviceInv_def)
  have "set (queue sD) \<subseteq> insert itD (set (queue s))"
    unfolding sD_def enqueue_admitted[OF admD] itD_def
    using queue_processQueue_subset[of cfg nD
        "s\<lparr>queue := insertByPriority (newItem cfg nD dD prio iD gD s) (queue s),
           promises := Suc (promises s), pendingCount := pendingCount s + 1\<rparr>"]
    by (simp add: set_insertByPriority)
  moreover have "\<forall>item \<in> set (queue s). promise item < d" using q by (simp add: queueInv_def d_def)
  ultimately have "\<forall>item \<in> set (queue sD). promise item = d \<longrightarrow> priority item = clampPriority cfg prio"
    by (fastforce simp add: itD_def newItem_simps)
  with prD have kept: "\<forall>item \<in> set (queue s1). promise item = d \<longrightarrow> priority item = clampPriority cfg prio"
    unfolding s1_def by (intro priority_kept) simp_all
  have svE: "service sE = map fst (started s1) @ map promise (insertByPriority itE (queue s1))"
    unfolding sE_def itE_def newItem_def by (rule service_enqueue[OF admE])
  have itE: "promise itE = e" "priority itE = clampPriority cfg prio"
    by (simp_all add: itE_def newItem_simps e_def)
  have bound: "\<forall>p \<in> ?P. p < promises sE" using de prE by simp
  show ?thesis
  proof (cases "d \<in> set (service s1)")
    case False
    have "d < promises sE" using de prE by simp
    moreover have "d \<notin> set (service sE)"
      unfolding svE using False de by (auto simp add: service_def set_insertByPriority itE)
    ultimately have "d \<notin> set (service (run cfg sE evs2))" by (rule left_service_for_good)
    then show ?thesis by simp
  next
    case True
    have "filter (\<lambda>p. p \<in> ?P) (service sE) = [d, e]"
    proof (cases "d \<in> set (map fst (started s1))")
      case True
      have "distinct (map fst (started s1))" using dist1 by (simp add: service_def)
      moreover have "set (map fst (started s1)) \<inter> ?P = {d}"
        using True fresh by (auto simp add: service_def)
      ultimately have a: "filter (\<lambda>p. p \<in> ?P) (map fst (started s1)) = [d]" by (rule filter_one)
      have dq: "d \<notin> promise ` set (queue s1)" using True dist1 by (auto simp add: service_def)
      have eq: "e \<notin> promise ` set (queue s1)" using fresh by (auto simp add: service_def)
      have "distinct (map promise (insertByPriority itE (queue s1)))"
        using dist1 eq by (simp add: distinct_insertByPriority itE service_def)
      moreover have "set (map promise (insertByPriority itE (queue s1))) \<inter> ?P = {e}"
        using dq eq by (auto simp add: set_insertByPriority itE)
      ultimately have "filter (\<lambda>p. p \<in> ?P) (map promise (insertByPriority itE (queue s1))) = [e]"
        by (rule filter_one)
      with a show ?thesis by (simp add: svE)
    next
      case False
      with True obtain x where x: "x \<in> set (queue s1)" "promise x = d"
        by (auto simp add: service_def)
      with kept have px: "priority x = clampPriority cfg prio" by simp
      have "set (map fst (started s1)) \<inter> ?P = {}" using False fresh by (auto simp add: service_def)
      then have a: "filter (\<lambda>p. p \<in> ?P) (map fst (started s1)) = []" by (rule filter_none)
      have lt: "\<forall>y \<in> set (queue s1). promise y < promise itE"
        using q1 by (simp add: queueInv_def itE e_def)
      have sorted: "sorted_wrt precedes (insertByPriority itE (queue s1))"
        using q1 lt by (simp add: queueInv_def sorted_insertByPriority)
      let ?l = "filter (\<lambda>it. promise it \<in> ?P) (insertByPriority itE (queue s1))"
      have dq: "distinct (map promise (queue s1))" using dist1 by (simp add: service_def)
      have only: "\<And>y. y \<in> set (queue s1) \<Longrightarrow> promise y = d \<Longrightarrow> y = x"
        using distinct_map_eq[OF dq _ x(1)] x(2) by simp
      have ne_e: "\<And>y. y \<in> set (queue s1) \<Longrightarrow> promise y \<noteq> e"
        using lt itE(1) by fastforce
      have "set ?l = {x, itE}"
      proof (intro set_eqI iffI)
        fix y assume "y \<in> set ?l"
        then have "y = itE \<or> (y \<in> set (queue s1) \<and> (promise y = d \<or> promise y = e))"
          by (auto simp add: set_insertByPriority)
        with only ne_e show "y \<in> {x, itE}" by blast
      next
        fix y assume "y \<in> {x, itE}"
        with x itE(1) show "y \<in> set ?l" by (auto simp add: set_insertByPriority)
      qed
      then have keys: "serviceKey ` set ?l = serviceKey ` set [x, itE]" by auto
      have "sorted_wrt precedes [x, itE]" using x px itE de by (simp add: precedes_def)
      with sorted_wrt_filter[OF sorted] keys
      have sel: "map promise ?l = map promise [x, itE]"
        by (intro same_keys_same_promises)
      have "filter (\<lambda>p. p \<in> ?P) (map promise (insertByPriority itE (queue s1))) = map promise ?l"
        by (simp only: filter_map comp_def)
      also note sel
      also have "map promise [x, itE] = [d, e]" by (simp add: x itE)
      finally show ?thesis using a by (simp add: svE)
    qed
    with start_order[OF bound, of cfg evs2] show ?thesis by simp
  qed
qed

text \<open>
  C8. In every state the analyzer can reach the queue is sorted by priority, highest first,
  and within one priority by order of submission (\<open>precedes\<close>: a higher priority, or
  the same priority and an earlier \<open>enqueue\<close> call).
  Consequently, in a configuration with at least three priority levels: if units A
  (priority 2), B (priority 0) and C (priority 1) are submitted in that order, all three
  admitted, and nothing is dequeued from before the first until after the third of these
  submissions, then whatever happens afterwards the three begin execution in the order
  A, C, B (their starts so far are always a beginning of A, C, B).
  And if D and then, at any later time, E are submitted with the same priority and both
  admitted, then whatever happens the starts of D and E so far are a beginning of D, E,
  unless D is no longer queued without having started (it was cleared from the queue),
  in which case D never begins at all: E never begins execution before D.
\<close>

theorem priority_then_fifo:
  "sorted_wrt precedes (queue (run cfg (initial t0) evs))
   \<and> (3 \<le> priorityLevels cfg
        \<and> pendingCount (run cfg (initial t0) evs) + 3 \<le> maxQueueSize cfg
        \<and> started (enqueue cfg nC dC 1 iC gC (enqueue cfg nB dB 0 iB gB
              (enqueue cfg nA dA 2 iA gA (run cfg (initial t0) evs))))
            = started (run cfg (initial t0) evs)
      \<longrightarrow> prefix
            (filter (\<lambda>p. p \<in> {promises (run cfg (initial t0) evs),
                                Suc (promises (run cfg (initial t0) evs)),
                                Suc (Suc (promises (run cfg (initial t0) evs)))})
               (map fst (started (run cfg
                  (enqueue cfg nC dC 1 iC gC (enqueue cfg nB dB 0 iB gB
                     (enqueue cfg nA dA 2 iA gA (run cfg (initial t0) evs)))) evs'))))
            [promises (run cfg (initial t0) evs),
             Suc (Suc (promises (run cfg (initial t0) evs))),
             Suc (promises (run cfg (initial t0) evs))])
   \<and> (pendingCount (run cfg (initial t0) evs) < maxQueueSize cfg
        \<and> pendingCount (run cfg (enqueue cfg nD dD prio iD gD (run cfg (initial t0) evs)) evs1)
            < maxQueueSize cfg
      \<longrightarrow> prefix
            (filter (\<lambda>p. p \<in> {promises (run cfg (initial t0) evs),
                                promises (run cfg (enqueue cfg nD dD prio iD gD
                                   (run cfg (initial t0) evs)) evs1)})
               (map fst (started (run cfg
                  (enqueue cfg nE dE prio iE gE
                     (run cfg (enqueue cfg nD dD prio iD gD (run cfg (initial t0) evs)) evs1))
                  evs2))))
            [promises (run cfg (initial t0) evs),
             promises (run cfg (enqueue cfg nD dD prio iD gD (run cfg (initial t0) evs)) evs1)]
          \<or> promises (run cfg (initial t0) evs)
              \<notin> set (service (run cfg
                  (enqueue cfg nE dE prio iE gE
                     (run cfg (enqueue cfg nD dD prio iD gD (run cfg (initial t0) evs)) evs1))
                  evs2)))"
proof (intro conjI impI)
  let ?s = "run cfg (initial t0) evs"
  have q: "queueInv ?s" by (rule queueInv_reachable)
  have sv: "serviceInv ?s" by (rule serviceInv_reachable)
  from q show "sorted_wrt precedes (queue ?s)" by (simp add: queueInv_def)
  {
    assume h: "3 \<le> priorityLevels cfg
        \<and> pendingCount ?s + 3 \<le> maxQueueSize cfg
        \<and> started (enqueue cfg nC dC 1 iC gC (enqueue cfg nB dB 0 iB gB
              (enqueue cfg nA dA 2 iA gA ?s))) = started ?s"
    show "prefix
            (filter (\<lambda>p. p \<in> {promises ?s, Suc (promises ?s), Suc (Suc (promises ?s))})
               (map fst (started (run cfg
                  (enqueue cfg nC dC 1 iC gC (enqueue cfg nB dB 0 iB gB
                     (enqueue cfg nA dA 2 iA gA ?s))) evs'))))
            [promises ?s, Suc (Suc (promises ?s)), Suc (promises ?s)]"
      using h by (intro three_tiers_order[OF refl refl refl refl q sv]) simp_all
  }
  {
    assume h: "pendingCount ?s < maxQueueSize cfg
        \<and> pendingCount (run cfg (enqueue cfg nD dD prio iD gD ?s) evs1) < maxQueueSize cfg"
    show "prefix
            (filter (\<lambda>p. p \<in> {promises ?s,
                                promises (run cfg (enqueue cfg nD dD prio iD gD ?s) evs1)})
               (map fst (started (run cfg
                  (enqueue cfg nE dE prio iE gE
                     (run cfg (enqueue cfg nD dD prio iD gD ?s) evs1))
                  evs2))))
            [promises ?s, promises (run cfg (enqueue cfg nD dD prio iD gD ?s) evs1)]
          \<or> promises ?s
              \<notin> set (service (run cfg
                  (enqueue cfg nE dE prio iE gE
                     (run cfg (enqueue cfg nD dD prio iD gD ?s) evs1))
                  evs2))"
      using h by (intro same_tier_order[OF refl refl refl refl refl q sv]) simp_all
  }
qed

theorem priority_then_fifo_witness:
  "3 \<le> priorityLevels cfgA
   \<and> pendingCount (run cfgA (initial 0) [Enqueue 0 JNull 0 None ''w'']) + 3 \<le> maxQueueSize cfgA
   \<and> started (enqueue cfgA 0 JNull 1 None ''c'' (enqueue cfgA 0 JNull 0 None ''b''
         (enqueue cfgA 0 JNull 2 None ''a'' (run cfgA (initial 0) [Enqueue 0 JNull 0 None ''w'']))))
       = started (run cfgA (initial 0) [Enqueue 0 JNull 0 None ''w''])
   \<and> map fst (started (run cfgA
         (enqueue cfgA 0 JNull 1 None ''c'' (enqueue cfgA 0 JNull 0 None ''b''
            (enqueue cfgA 0 JNull 2 None ''a'' (run cfgA (initial 0) [Enqueue 0 JNull 0 None ''w'']))))
         [WorkSettled 100 0 (Inr ''r''), WorkSettled 200 0 (Inr ''r''),
          WorkSettled 300 0 (Inr ''r'')]))
       = [0, 1, 3, 2]
   \<and> pendingCount (run cfgA (enqueue cfgA 0 JNull 1 None ''d''
         (run cfgA (initial 0) [Enqueue 0 JNull 0 None ''w''])) []) < maxQueueSize cfgA
   \<and> map fst (started (run cfgA
         (enqueue cfgA 0 JNull 1 None ''e''
            (run cfgA (enqueue cfgA 0 JNull 1 None ''d''
               (run cfgA (initial 0) [Enqueue 0 JNull 0 None ''w''])) []))
         [WorkSettled 100 0 (Inr ''r''), WorkSettled 200 0 (Inr ''r'')]))
       = [0, 1, 2]"
  using priority_then_fifo[of cfgA 0 "[Enqueue 0 JNull 0 None ''w'']"
      0 JNull None "''c''" 0 JNull None "''b''" 0 JNull None "''a''"
      "[WorkSettled 100 0 (Inr ''r''), WorkSettled 200 0 (Inr ''r''),
        WorkSettled 300 0 (Inr ''r'')]"
      0 JNull 1 None "''d''" "[]" 0 JNull None "''e''"
      "[WorkSettled 100 0 (Inr ''r''), WorkSettled 200 0 (Inr ''r'')]"]
  by (simp add: cfgA_def run_defs)

text \<open>
  C3, as stated: with three priority levels and the queue initially empty and idle, low
  (0), high (2) and medium (1), submitted in that order without delay, begin execution in
  the order high, medium, low. It fails on a fresh analyzer: \<open>enqueue\<close> calls
  \<open>processQueue\<close>, which runs synchronously up to its first \<open>await\<close>, so the low unit is
  shifted off the queue and begins execution inside its own submission, before the high
  one is even submitted.
\<close>

theorem low_begins_before_high:
  "map fst (started (run cfgA (initial 0) [Enqueue 0 JNull 0 None ''low''])) = [0]
   \<and> map fst (started (run cfgA (initial 0)
        [Enqueue 0 JNull 0 None ''low'', Enqueue 0 JNull 2 None ''high'',
         Enqueue 0 JNull 1 None ''medium'',
         WorkSettled 100 0 (Inr ''r''), WorkSettled 200 0 (Inr ''r''),
         WorkSettled 300 0 (Inr ''r'')])) = [0, 1, 2]
   \<and> map fst (started (run cfgA (initial 0)
        [Enqueue 0 JNull 0 None ''low'', Enqueue 0 JNull 2 None ''high'',
         Enqueue 0 JNull 1 None ''medium'',
         WorkSettled 100 0 (Inr ''r''), WorkSettled 200 0 (Inr ''r''),
         WorkSettled 300 0 (Inr ''r'')])) \<noteq> [1, 2, 0]"
  by (simp add: cfgA_def run_defs)

text \<open>While the loop is busy an admitted \<open>enqueue\<close> only inserts.\<close>

lemma enqueue_busy:
  "processing s \<Longrightarrow> pendingCount s < maxQueueSize cfg \<Longrightarrow>
     enqueue cfg now dat prio ident generated s
       = s\<lparr>queue := insertByPriority (newItem cfg now dat prio ident generated s) (queue s),
           promises := Suc (promises s),
           pendingCount := pendingCount s + 1\<rparr>"
  by (simp add: enqueue_admitted processQueue_def)

text \<open>
  The queue empty and the drain loop idle: the first of three submissions starts its unit
  at once when the rate window lets a unit start, and only starts a loop that sleeps when
  it does not.
\<close>

lemma idle_submission_open:
  assumes "queue s = []" and "\<not> processing s" and "pendingCount s < maxQueueSize cfg"
    and "1 \<le> requestsPerSecond cfg" and "windowOpen cfg now s"
  shows "map fst (started (enqueue cfg now dat prio ident generated s))
           = map fst (started s) @ [promises s]"
    and "queue (enqueue cfg now dat prio ident generated s) = []"
    and "processing (enqueue cfg now dat prio ident generated s)"
  using assms by (auto simp add: windowOpen_def enqueue_def Let_def processQueue_def drainLoop_def)

lemma idle_submission_shut:
  assumes "queue s = []" and "\<not> processing s" and "pendingCount s < maxQueueSize cfg"
    and "\<not> windowOpen cfg now s"
  shows "started (enqueue cfg now dat prio ident generated s) = started s"
    and "processing (enqueue cfg now dat prio ident generated s)"
  using assms by (auto simp add: windowOpen_def enqueue_def Let_def processQueue_def drainLoop_def)

text \<open>
  C3, amended: with three priority levels, a window limit of at least 1 and room for three
  more units, and the queue empty and the drain loop idle, let low (0), high (2) and
  medium (1) be submitted in that order, at whatever times. If the rate window lets a
  unit start at the first submission (it always does on a fresh analyzer), the low unit
  begins execution during its own submission and, whatever happens afterwards, the three
  begin execution in the order low, high, medium. If the window does not (its limit is
  reached and it has not expired), all three wait and they begin execution in the order
  high, medium, low. (The starts so far are always a beginning of the order named.)
\<close>

theorem idle_submissions_order:
  assumes lv: "priorityLevels cfg = 3" and rps: "1 \<le> requestsPerSecond cfg"
    and empty: "queue (run cfg (initial t0) evs) = []"
    and idle: "\<not> processing (run cfg (initial t0) evs)"
    and room: "pendingCount (run cfg (initial t0) evs) + 3 \<le> maxQueueSize cfg"
  shows "(windowOpen cfg n0 (run cfg (initial t0) evs) \<longrightarrow>
           map fst (started (enqueue cfg n0 d0 0 i0 g0 (run cfg (initial t0) evs)))
             = map fst (started (run cfg (initial t0) evs)) @ [promises (run cfg (initial t0) evs)]
           \<and> prefix
               (filter (\<lambda>p. p \<in> {promises (run cfg (initial t0) evs),
                                   Suc (promises (run cfg (initial t0) evs)),
                                   Suc (Suc (promises (run cfg (initial t0) evs)))})
                  (map fst (started (run cfg
                     (enqueue cfg n2 d2 1 i2 g2 (enqueue cfg n1 d1 2 i1 g1
                        (enqueue cfg n0 d0 0 i0 g0 (run cfg (initial t0) evs)))) evs'))))
               [promises (run cfg (initial t0) evs),
                Suc (promises (run cfg (initial t0) evs)),
                Suc (Suc (promises (run cfg (initial t0) evs)))])
       \<and> (\<not> windowOpen cfg n0 (run cfg (initial t0) evs) \<longrightarrow>
           prefix
               (filter (\<lambda>p. p \<in> {promises (run cfg (initial t0) evs),
                                   Suc (promises (run cfg (initial t0) evs)),
                                   Suc (Suc (promises (run cfg (initial t0) evs)))})
                  (map fst (started (run cfg
                     (enqueue cfg n2 d2 1 i2 g2 (enqueue cfg n1 d1 2 i1 g1
                        (enqueue cfg n0 d0 0 i0 g0 (run cfg (initial t0) evs)))) evs'))))
               [Suc (promises (run cfg (initial t0) evs)),
                Suc (Suc (promises (run cfg (initial t0) evs))),
                promises (run cfg (initial t0) evs)])"
proof (intro conjI impI)
  let ?s = "run cfg (initial t0) evs"
  define a where "a = promises ?s"
  define s1 where "s1 = enqueue cfg n0 d0 0 i0 g0 ?s"
  define s2 where "s2 = enqueue cfg n1 d1 2 i1 g1 s1"
  define s3 where "s3 = enqueue cfg n2 d2 1 i2 g2 s2"
  let ?P = "{a, Suc a, Suc (Suc a)}"
  have q: "queueInv ?s" by (rule queueInv_reachable)
  have sv: "serviceInv ?s" by (rule serviceInv_reachable)
  have adm: "pendingCount ?s < maxQueueSize cfg" using room by simp
  have pc1: "pendingCount s1 = pendingCount ?s + 1" using adm by (simp add: s1_def pendingCount_enqueue)
  have pr1: "promises s1 = Suc a" by (simp add: s1_def a_def promises_enqueue)
  have old: "set (map fst (started ?s)) \<inter> ?P = {}"
  proof -
    have "\<forall>x \<in> set (map fst (started ?s)). x < a"
      using sv by (auto simp add: serviceInv_def service_def a_def)
    then show ?thesis by fastforce
  qed
  {
    assume op: "windowOpen cfg n0 ?s"
    note f1 = idle_submission_open[OF empty idle adm rps op, of d0 0 i0 g0, folded s1_def a_def]
    have e2: "s2 = s1\<lparr>queue := insertByPriority (newItem cfg n1 d1 2 i1 g1 s1) (queue s1),
                        promises := Suc (promises s1), pendingCount := pendingCount s1 + 1\<rparr>"
      unfolding s2_def using f1(3) pc1 room by (intro enqueue_busy) simp_all
    have f2: "processing s2" "pendingCount s2 = pendingCount ?s + 2" "promises s2 = Suc (Suc a)"
      using f1 pc1 pr1 by (simp_all add: e2)
    have e3: "s3 = s2\<lparr>queue := insertByPriority (newItem cfg n2 d2 1 i2 g2 s2) (queue s2),
                        promises := Suc (promises s2), pendingCount := pendingCount s2 + 1\<rparr>"
      unfolding s3_def using f2 room by (intro enqueue_busy) simp_all
    have st3: "map fst (started s3) = map fst (started ?s) @ [a]"
      using f1(1) by (simp add: e3 e2)
    have q3: "map promise (queue s3) = [Suc a, Suc (Suc a)]"
      using lv f1(2) pr1 f2(3) by (simp add: e3 e2 newItem_simps clampPriority_def)
    have "filter (\<lambda>p. p \<in> ?P) (service s3) = [a, Suc a, Suc (Suc a)]"
      unfolding service_def st3 q3 using filter_none[OF old] by simp
    moreover have "\<forall>p \<in> ?P. p < promises s3" using f2(3) by (simp add: e3)
    ultimately have "prefix (filter (\<lambda>p. p \<in> ?P) (map fst (started (run cfg s3 evs'))))
                            [a, Suc a, Suc (Suc a)]"
      using start_order[of ?P s3 cfg evs'] by simp
    then show "prefix
               (filter (\<lambda>p. p \<in> {promises ?s, Suc (promises ?s), Suc (Suc (promises ?s))})
                  (map fst (started (run cfg
                     (enqueue cfg n2 d2 1 i2 g2 (enqueue cfg n1 d1 2 i1 g1
                        (enqueue cfg n0 d0 0 i0 g0 ?s))) evs'))))
               [promises ?s, Suc (promises ?s), Suc (Suc (promises ?s))]"
      by (simp only: a_def s1_def s2_def s3_def)
    from f1(1) show "map fst (started (enqueue cfg n0 d0 0 i0 g0 ?s))
             = map fst (started ?s) @ [promises ?s]"
      by (simp only: a_def s1_def)
  }
  {
    assume sh: "\<not> windowOpen cfg n0 ?s"
    note f1 = idle_submission_shut[OF empty idle adm sh, of d0 0 i0 g0, folded s1_def]
    have e2: "s2 = s1\<lparr>queue := insertByPriority (newItem cfg n1 d1 2 i1 g1 s1) (queue s1),
                        promises := Suc (promises s1), pendingCount := pendingCount s1 + 1\<rparr>"
      unfolding s2_def using f1(2) pc1 room by (intro enqueue_busy) simp_all
    have f2: "processing s2" "pendingCount s2 = pendingCount ?s + 2" "promises s2 = Suc (Suc a)"
      using f1 pc1 pr1 by (simp_all add: e2)
    have e3: "s3 = s2\<lparr>queue := insertByPriority (newItem cfg n2 d2 1 i2 g2 s2) (queue s2),
                        promises := Suc (promises s2), pendingCount := pendingCount s2 + 1\<rparr>"
      unfolding s3_def using f2 room by (intro enqueue_busy) simp_all
    have quiet: "started s3 = started ?s" using f1(1) by (simp add: e3 e2)
    have "map promise (insertByPriority (newItem cfg n2 d2 1 i2 g2 s2)
            (insertByPriority (newItem cfg n1 d1 2 i1 g1 s1)
               (insertByPriority (newItem cfg n0 d0 0 i0 g0 ?s) [])))
          = [Suc a, Suc (Suc a), a]"
      using lv by (simp add: newItem_simps clampPriority_def a_def pr1[unfolded a_def] f2(3)[unfolded a_def])
    with quiet_batch_order[OF a_def s1_def s2_def s3_def refl refl refl q sv room quiet, of evs']
    have "prefix (filter (\<lambda>p. p \<in> ?P) (map fst (started (run cfg s3 evs'))))
                 [Suc a, Suc (Suc a), a]" by simp
    then show "prefix
               (filter (\<lambda>p. p \<in> {promises ?s, Suc (promises ?s), Suc (Suc (promises ?s))})
                  (map fst (started (run cfg
                     (enqueue cfg n2 d2 1 i2 g2 (enqueue cfg n1 d1 2 i1 g1
                        (enqueue cfg n0 d0 0 i0 g0 ?s))) evs'))))
               [Suc (promises ?s), Suc (Suc (promises ?s)), promises ?s]"
      by (simp only: a_def s1_def s2_def s3_def)
  }
qed

theorem idle_submissions_order_witness:
  "priorityLevels cfgD = 3 \<and> 1 \<le> requestsPerSecond cfgD
   \<and> queue (run cfgD (initial 0) []) = [] \<and> \<not> processing (run cfgD (initial 0) [])
   \<and> pendingCount (run cfgD (initial 0) []) + 3 \<le> maxQueueSize cfgD
   \<and> windowOpen cfgD 0 (run cfgD (initial 0) [])
   \<and> map fst (started (run cfgD
        (enqueue cfgD 0 JNull 1 None ''medium'' (enqueue cfgD 0 JNull 2 None ''high''
           (enqueue cfgD 0 JNull 0 None ''low'' (run cfgD (initial 0) []))))
        [WorkSettled 100 0 (Inr ''r''), SleepElapsed 1000 0, WorkSettled 1100 0 (Inr ''r''),
         SleepElapsed 2000 0])) = [0, 1, 2]
   \<and> queue (run cfgD (initial 0) [Enqueue 0 JNull 0 None ''x'', WorkSettled 100 0 (Inr ''r'')]) = []
   \<and> \<not> processing (run cfgD (initial 0)
          [Enqueue 0 JNull 0 None ''x'', WorkSettled 100 0 (Inr ''r'')])
   \<and> pendingCount (run cfgD (initial 0)
          [Enqueue 0 JNull 0 None ''x'', WorkSettled 100 0 (Inr ''r'')]) + 3 \<le> maxQueueSize cfgD
   \<and> \<not> windowOpen cfgD 200 (run cfgD (initial 0)
          [Enqueue 0 JNull 0 None ''x'', WorkSettled 100 0 (Inr ''r'')])
   \<and> map fst (started (run cfgD
        (enqueue cfgD 200 JNull 1 None ''medium'' (enqueue cfgD 200 JNull 2 None ''high''
           (enqueue cfgD 200 JNull 0 None ''low'' (run cfgD (initial 0)
              [Enqueue 0 JNull 0 None ''x'', WorkSettled 100 0 (Inr ''r'')]))))
        [SleepElapsed 1000 1, WorkSettled 1100 1 (Inr ''r''), SleepElapsed 2000 1,
         WorkSettled 2100 1 (Inr ''r''), SleepElapsed 3000 1])) = [0, 2, 3, 1]"
  using idle_submissions_order[of cfgD 0 "[]" 0 JNull None "''low''"
      0 JNull None "''medium''" 0 JNull None "''high''"
      "[WorkSettled 100 0 (Inr ''r''), SleepElapsed 1000 0, WorkSettled 1100 0 (Inr ''r''),
         SleepElapsed 2000 0]"]
    idle_submissions_order[of cfgD 0 "[Enqueue 0 JNull 0 None ''x'', WorkSettled 100 0 (Inr ''r'')]"
      200 JNull None "''low''" 200 JNull None "''medium''" 200 JNull None "''high''"
      "[SleepElapsed 1000 1, WorkSettled 1100 1 (Inr ''r''), SleepElapsed 2000 1,
         WorkSettled 2100 1 (Inr ''r''), SleepElapsed 3000 1]"]
  by (simp add: cfgD_def run_defs windowOpen_def)

section \<open>The complexity metric\<close>

lemma plain_own:
  assumes "plain (objects h obj)" and "kv \<in> set (enumerated (objects h obj))"
  shows "\<exists>b. hasOwnProperty h obj (fst kv) = Inr b" and "\<exists>v. getProperty h obj (snd kv) = Inr v"
proof -
  from assms(1) show "\<exists>b. hasOwnProperty h obj (fst kv) = Inr b"
    by (simp add: plain_def hasOwnProperty_def)
  from assms have "case snd kv of Data v \<Rightarrow> True | Accessor g \<Rightarrow> False"
    by (simp add: plain_def list_all_iff)
  then show "\<exists>v. getProperty h obj (snd kv) = Inr v"
    by (cases "snd kv") (simp_all add: getProperty_def)
qed

lemma traverse_returns:
  assumes "\<forall>a. plain (objects h a)"
  shows "\<exists>n. traverse h obj depth c = Inr n"
  using assms
proof (induction h obj depth c rule: traverse.induct)
  case (1 h obj depth complexity)
  show ?case
  proof (cases "5 < depth")
    case True
    then show ?thesis by (simp add: traverse.simps)
  next
    case False
    define F where "F = (\<lambda>kv acc.
                   case acc of
                     Inl e \<Rightarrow> Inl e
                   | Inr c \<Rightarrow>
                       (case hasOwnProperty h obj (fst kv) of
                          Inl e \<Rightarrow> Inl e
                        | Inr False \<Rightarrow> Inr c
                        | Inr True \<Rightarrow>
                            (case getProperty h obj (snd kv) of
                               Inl e \<Rightarrow> Inl e
                             | Inr (JObj child) \<Rightarrow> traverse h child (depth + 1) (c + 1)
                             | Inr _ \<Rightarrow> Inr (c + 1))))"
    have p: "plain (objects h obj)" using "1.prems" by simp
    have body: "\<And>kv c. kv \<in> set (enumerated (objects h obj)) \<Longrightarrow> \<exists>n. F kv (Inr c) = Inr n"
    proof -
      fix kv c assume kv: "kv \<in> set (enumerated (objects h obj))"
      from plain_own[OF p kv] obtain b v where
        b: "hasOwnProperty h obj (fst kv) = Inr b" and v: "getProperty h obj (snd kv) = Inr v"
        by blast
      show "\<exists>n. F kv (Inr c) = Inr n"
      proof (cases b)
        case False
        with b show ?thesis by (simp add: F_def)
      next
        case True
        show ?thesis
        proof (cases v)
          case (JObj child)
          from True have bt: "b = True" by simp
          from "1.IH"[OF False kv b bt v JObj "1.prems", of c]
          show ?thesis using b True v JObj by (simp add: F_def)
        qed (use b True v in \<open>simp_all add: F_def\<close>)
      qed
    qed
    have loop: "\<And>c. set ps \<subseteq> set (enumerated (objects h obj)) \<Longrightarrow> \<exists>n. fold F ps (Inr c) = Inr n"
      for ps
    proof (induction ps)
      case Nil
      then show ?case by simp
    next
      case (Cons kv ps)
      then obtain m where "F kv (Inr c) = Inr m" using body[of kv c] by auto
      with Cons.IH[of m] Cons.prems show ?case by simp
    qed
    from loop[of "enumerated (objects h obj)" complexity] False show ?thesis
      by (simp add: traverse.simps[of h obj depth complexity] F_def)
  qed
qed

lemma traverse_bounds:
  "traverse h obj depth c = Inr n \<Longrightarrow>
     c \<le> n \<and> ((\<forall>a. length (enumerated (objects h a)) \<le> b)
                \<longrightarrow> n \<le> c + int (visits b (6 - depth)))"
proof (induction h obj depth c arbitrary: n rule: traverse.induct)
  case (1 h obj depth complexity)
  let ?small = "\<forall>a. length (enumerated (objects h a)) \<le> b"
  show ?case
  proof (cases "5 < depth")
    case True
    with "1.prems" show ?thesis by (simp add: traverse.simps)
  next
    case False
    define F where "F = (\<lambda>kv acc.
                   case acc of
                     Inl e \<Rightarrow> Inl e
                   | Inr c \<Rightarrow>
                       (case hasOwnProperty h obj (fst kv) of
                          Inl e \<Rightarrow> Inl e
                        | Inr False \<Rightarrow> Inr c
                        | Inr True \<Rightarrow>
                            (case getProperty h obj (snd kv) of
                               Inl e \<Rightarrow> Inl e
                             | Inr (JObj child) \<Rightarrow> traverse h child (depth + 1) (c + 1)
                             | Inr _ \<Rightarrow> Inr (c + 1))))"
    define w where "w = 1 + int (visits b (6 - (depth + 1)))"
    have w1: "1 \<le> w" by (simp add: w_def)
    have body: "\<And>kv c m. kv \<in> set (enumerated (objects h obj)) \<Longrightarrow> F kv (Inr c) = Inr m \<Longrightarrow>
        c \<le> m \<and> (?small \<longrightarrow> m \<le> c + w)"
    proof -
      fix kv c m
      assume kv: "kv \<in> set (enumerated (objects h obj))" and m: "F kv (Inr c) = Inr m"
      show "c \<le> m \<and> (?small \<longrightarrow> m \<le> c + w)"
      proof (cases "hasOwnProperty h obj (fst kv)")
        case (Inl e)
        with m show ?thesis by (simp add: F_def)
      next
        case (Inr x)
        show ?thesis
        proof (cases x)
          case xf: False
          with m Inr w1 show ?thesis by (simp add: F_def)
        next
          case xt: True
          show ?thesis
          proof (cases "getProperty h obj (snd kv)")
            case gl: (Inl e)
            with m Inr xt show ?thesis by (simp add: F_def)
          next
            case gr: (Inr v)
            show ?thesis
            proof (cases v)
              case (JObj child)
              with m Inr xt gr have "traverse h child (depth + 1) (c + 1) = Inr m"
                by (simp add: F_def)
              moreover from xt have "x = True" by simp
              ultimately show ?thesis using "1.IH"[OF False kv Inr _ gr JObj, of c m]
                by (auto simp add: w_def)
            qed (use m Inr xt gr w1 in \<open>simp_all add: F_def\<close>)
          qed
        qed
      qed
    qed
    have stuck: "\<And>ps e. fold F ps (Inl e) = Inl e"
    proof -
      fix ps e show "fold F ps (Inl e) = Inl e" by (induction ps) (simp_all add: F_def)
    qed
    have loop: "\<And>c m. set ps \<subseteq> set (enumerated (objects h obj)) \<Longrightarrow> fold F ps (Inr c) = Inr m \<Longrightarrow>
        c \<le> m \<and> (?small \<longrightarrow> m \<le> c + int (length ps) * w)" for ps
    proof (induction ps)
      case Nil
      then show ?case by simp
    next
      case (Cons kv ps)
      show ?case
      proof (cases "F kv (Inr c)")
        case (Inl e)
        with Cons.prems(2) stuck[of ps e] show ?thesis by simp
      next
        case (Inr k)
        from body[OF _ Inr] Cons.prems(1)
        have k: "c \<le> k \<and> (?small \<longrightarrow> k \<le> c + w)" by simp
        from Cons.IH[of k m] Cons.prems Inr
        have "k \<le> m \<and> (?small \<longrightarrow> m \<le> k + int (length ps) * w)" by simp
        with k show ?thesis by (auto simp add: algebra_simps)
      qed
    qed
    from "1.prems" False have "fold F (enumerated (objects h obj)) (Inr complexity) = Inr n"
      by (simp add: traverse.simps[of h obj depth complexity] F_def)
    from loop[OF subset_refl this]
    have r: "complexity \<le> n"
      "?small \<longrightarrow> n \<le> complexity + int (length (enumerated (objects h obj))) * w" by simp_all
    have "?small \<longrightarrow> n \<le> complexity + int (visits b (6 - depth))"
    proof
      assume all: ?small
      with r(2) have n: "n \<le> complexity + int (length (enumerated (objects h obj))) * w" by simp
      from all have "int (length (enumerated (objects h obj))) \<le> int b" by simp
      with w1 have "int (length (enumerated (objects h obj))) * w \<le> int b * w"
        by (intro mult_right_mono) simp_all
      moreover from False have "6 - depth = Suc (6 - (depth + 1))" by simp
      then have "int (visits b (6 - depth)) = int b * w"
        by (simp add: w_def algebra_simps)
      ultimately show "n \<le> complexity + int (visits b (6 - depth))" using n by simp
    qed
    with r(1) show ?thesis by simp
  qed
qed

lemma notCallable_throws:
  "notCallable (objects h obj) \<Longrightarrow> hasOwnProperty h obj key = Inl TypeError"
  by (auto simp add: notCallable_def hasOwnProperty_def getProperty_def
      split: resolution.splits property.splits jsval.splits)

lemma traverse_notCallable:
  assumes "depth \<le> 5" and "notCallable (objects h obj)" and "enumerated (objects h obj) \<noteq> []"
  shows "traverse h obj depth c = Inl TypeError"
proof -
  define F where "F = (\<lambda>kv acc.
                   case acc of
                     Inl e \<Rightarrow> Inl e
                   | Inr c \<Rightarrow>
                       (case hasOwnProperty h obj (fst kv) of
                          Inl e \<Rightarrow> Inl e
                        | Inr False \<Rightarrow> Inr c
                        | Inr True \<Rightarrow>
                            (case getProperty h obj (snd kv) of
                               Inl e \<Rightarrow> Inl e
                             | Inr (JObj child) \<Rightarrow> traverse h child (depth + 1) (c + 1)
                             | Inr _ \<Rightarrow> Inr (c + 1))))"
  from assms(3) obtain kv ps where l: "enumerated (objects h obj) = kv # ps"
    by (cases "enumerated (objects h obj)") auto
  have first: "F kv (Inr c) = Inl TypeError"
    using notCallable_throws[OF assms(2)] by (simp add: F_def)
  have stuck: "fold F ps (Inl TypeError) = Inl TypeError"
    by (induction ps) (simp_all add: F_def)
  have "traverse h obj depth c = fold F (enumerated (objects h obj)) (Inr c)"
    using assms(1) by (simp add: traverse.simps[of h obj depth c] F_def)
  with l first stuck show ?thesis by simp
qed

lemma calculateComplexity_primitive:
  "(\<forall>obj. data \<noteq> JObj obj) \<Longrightarrow> calculateComplexity h data = Inr 0"
  by (cases data) (simp_all add: calculateComplexity_def)

lemma calculateComplexity_bounds:
  assumes "calculateComplexity h data = Inr n"
  shows "0 \<le> n"
    and "\<forall>a. length (enumerated (objects h a)) \<le> b \<Longrightarrow> n \<le> int (visits b 6)"
proof -
  show "0 \<le> n"
    using assms traverse_bounds[of h _ 0 0 n b]
    by (cases data) (auto simp add: calculateComplexity_def)
  assume "\<forall>a. length (enumerated (objects h a)) \<le> b"
  then show "n \<le> int (visits b 6)"
    using assms traverse_bounds[of h _ 0 0 n b]
    by (cases data) (auto simp add: calculateComplexity_def)
qed

lemma calculateComplexity_plain:
  assumes "\<forall>a. plain (objects h a)"
  shows "\<exists>n. calculateComplexity h data = Inr n \<and> 0 \<le> n"
proof (cases data)
  case (JObj obj)
  from traverse_returns[OF assms, of obj 0 0] obtain n where n: "traverse h obj 0 0 = Inr n"
    by blast
  with traverse_bounds[OF n, of 0] JObj show ?thesis by (simp add: calculateComplexity_def)
qed (simp_all add: calculateComplexity_def)

lemma complexity_of_self_reference:
  "calculateComplexity heapSelf (JObj 0) = Inr 6"
  by (simp add: calculateComplexity_def traverse.simps hasOwnProperty_def
      lookupHasOwnProperty_def getProperty_def enumerated_def heapSelf_def heapOf_def)

text \<open>
  C10. \<open>calculateComplexity\<close> terminates for every input, also a deep or self-referential
  one, always returns an integer that is not negative, and returns 0 for every input that
  is not an object. The code does not always return: \<open>traverse\<close> asks the payload object
  itself for the method, \<open>obj.hasOwnProperty(key)\<close>, where the other functions of the
  analyzer read the keys of the payload with \<open>Object.keys(data)\<close>. For the payload
  \<open>{hasOwnProperty: 1}\<close> the call is a call of the number 1, and for an object without
  prototype a call of \<open>undefined\<close>: \<open>calculateComplexity\<close> throws a \<open>TypeError\<close> for both.
  (The recursion itself ends, going down on \<open>6 - depth\<close>; on plain objects the function
  returns a count that is not negative, and it returns 0 for what is not an object, as the
  lemmas above say.)
\<close>

theorem complexity_throws_on_shadowed_method:
  "calculateComplexity heapShadow (JObj 0) = Inl TypeError
   \<and> calculateComplexity heapBare (JObj 0) = Inl TypeError"
  by (simp add: calculateComplexity_def traverse.simps hasOwnProperty_def
      lookupHasOwnProperty_def getProperty_def enumerated_def heapShadow_def heapBare_def
      heapOf_def)

section \<open>No unit is left waiting\<close>

lemma weight_update:
  "i < length ks \<Longrightarrow>
     sum_list (map weight (ks[i := k])) + weight (ks ! i) = sum_list (map weight ks) + weight k"
proof (induction ks arbitrary: i)
  case Nil
  then show ?case by simp
next
  case (Cons a ks)
  then show ?case by (cases i) simp_all
qed

lemma live_update:
  "i < length ks \<Longrightarrow> k \<noteq> Returned \<Longrightarrow> list_ex (\<lambda>k. k \<noteq> Returned) (ks[i := k])"
  by (auto simp add: list_ex_iff set_update_memI)

lemma drainLoop_live:
  assumes "drainLoop cfg now s = (s', k)"
  shows "(k = Returned \<and> queue s' = [] \<and> \<not> processing s')
         \<or> (k \<noteq> Returned \<and> processing s' = processing s)"
  using assms by (auto simp: drainLoop_def Let_def split: list.splits if_splits)

lemma liveInv_enqueue:
  assumes "liveInv s"
  shows "liveInv (enqueue cfg now dat prio ident generated s)"
proof (cases "maxQueueSize cfg \<le> pendingCount s")
  case True
  with assms show ?thesis by (simp add: enqueue_def liveInv_def)
next
  case False
  then have adm: "pendingCount s < maxQueueSize cfg" by simp
  let ?s2 = "s\<lparr>queue := insertByPriority (newItem cfg now dat prio ident generated s) (queue s),
                promises := Suc (promises s), pendingCount := pendingCount s + 1\<rparr>"
  show ?thesis
  proof (cases "processing s")
    case True
    with assms have "list_ex (\<lambda>k. k \<noteq> Returned) (loops s)" by (simp add: liveInv_def)
    with True show ?thesis
      unfolding enqueue_admitted[OF adm] by (simp add: processQueue_def liveInv_def)
  next
    case np: False
    obtain s' k where d: "drainLoop cfg now (?s2\<lparr>processing := True\<rparr>) = (s', k)"
      by (cases "drainLoop cfg now (?s2\<lparr>processing := True\<rparr>)")
    have ne: "queue ?s2 \<noteq> []" by (cases "queue s") simp_all
    with d have "k \<noteq> Returned"
      by (auto simp: drainLoop_def Let_def split: list.splits if_splits)
    with np ne d show ?thesis
      unfolding enqueue_admitted[OF adm] by (simp add: processQueue_def liveInv_def)
  qed
qed

lemma liveInv_resume:
  assumes "i < length (loops s)" and "drainLoop cfg now s = (s', k)"
  shows "liveInv (s'\<lparr>loops := (loops s')[i := k]\<rparr>)"
proof -
  from drainLoop_frame[OF assms(2)] have l: "loops s' = loops s" by simp
  from drainLoop_live[OF assms(2)] show ?thesis
  proof
    assume "k = Returned \<and> queue s' = [] \<and> \<not> processing s'"
    then show ?thesis by (simp add: liveInv_def)
  next
    assume "k \<noteq> Returned \<and> processing s' = processing s"
    with live_update[of i "loops s" k] assms(1) l show ?thesis by (simp add: liveInv_def)
  qed
qed

lemma liveInv_step: "liveInv s \<Longrightarrow> liveInv (step cfg s e)"
proof (cases e)
  case (Enqueue now dat prio ident generated)
  assume "liveInv s"
  with Enqueue show ?thesis by (simp add: liveInv_enqueue)
next
  case Clear
  then show ?thesis by (simp add: clear_def liveInv_def)
next
  case (RejectTimerFires p)
  assume "liveInv s"
  with RejectTimerFires show ?thesis by (simp add: rejectTimerFires_def liveInv_def)
next
  case (SleepElapsed now i)
  assume inv: "liveInv s"
  show ?thesis
  proof (cases "i < length (loops s) \<and> loops s ! i = AwaitSleep")
    case False
    with inv SleepElapsed show ?thesis by (auto simp add: sleepElapsed_def)
  next
    case True
    obtain s' k where d: "drainLoop cfg now s = (s', k)" by (cases "drainLoop cfg now s")
    from liveInv_resume[OF _ d, of i] True d SleepElapsed show ?thesis
      by (simp add: sleepElapsed_def)
  qed
next
  case (WorkSettled now i outcome)
  assume inv: "liveInv s"
  show ?thesis
  proof (cases "i < length (loops s) \<and> (\<exists>item. loops s ! i = AwaitWork item)")
    case False
    with inv WorkSettled show ?thesis by (simp add: workSettled_idle)
  next
    case True
    then obtain item where it: "loops s ! i = AwaitWork item" and i: "i < length (loops s)"
      by blast
    define s2 where "s2 = s\<lparr>calls := calls s @
                             [(promise item,
                               case outcome of
                                 Inr result \<Rightarrow> Resolved result
                               | Inl err \<Rightarrow> Rejected (WorkError err))],
                           pendingCount := pendingCount s - 1\<rparr>"
    obtain s3 k where d: "drainLoop cfg now s2 = (s3, k)"
      by (cases "drainLoop cfg now s2")
    have w: "workSettled cfg now i outcome s = s3\<lparr>loops := (loops s3)[i := k]\<rparr>"
      using i it d by (simp add: workSettled_def s2_def)
    from liveInv_resume[OF _ d, of i] i show ?thesis
      unfolding WorkSettled step.simps w by (simp add: s2_def)
  qed
qed

lemma liveInv_run: "liveInv s \<Longrightarrow> liveInv (run cfg s evs)"
  by (induction evs arbitrary: s) (simp_all add: liveInv_step)

lemma liveInv_reachable: "liveInv (run cfg (initial t0) evs)"
  by (rule liveInv_run) (simp add: liveInv_def initial_def)

lemma drainLoop_backlog:
  assumes "drainLoop cfg now s = (s', k)"
  shows "3 * length (queue s') + weight k \<le> 3 * length (queue s) + 1"
  using assms by (auto simp: drainLoop_def Let_def split: list.splits if_splits)

lemma drainLoop_backlog_reset:
  assumes "drainLoop cfg now s = (s', k)" and "queue s \<noteq> []"
    and "1 \<le> requestsPerSecond cfg" and "now = lastResetTime s + 1000"
  shows "3 * length (queue s') + weight k + 1 = 3 * length (queue s)"
  using assms by (auto simp: drainLoop_def Let_def split: list.splits if_splits)

lemma backlog_resume:
  assumes "i < length (loops s)" and "drainLoop cfg now s = (s', k)"
  shows "backlog (s'\<lparr>loops := (loops s')[i := k]\<rparr>) + weight (loops s ! i)
           = 3 * length (queue s') + weight k + sum_list (map weight (loops s))
             + length (rejectTimers s)"
  using drainLoop_frame[OF assms(2)] weight_update[OF assms(1), of k]
  by (simp add: backlog_def)

lemma progress_timer:
  assumes "rejectTimers s \<noteq> []"
  shows "backlog (step cfg s (RejectTimerFires (hd (rejectTimers s)))) < backlog s"
  using assms by (cases "rejectTimers s") (simp_all add: rejectTimerFires_def backlog_def)

lemma progress_work:
  assumes "i < length (loops s)" and "loops s ! i = AwaitWork item"
  shows "backlog (step cfg s (WorkSettled now i outcome)) < backlog s"
proof -
  define s2 where "s2 = s\<lparr>calls := calls s @
                             [(promise item,
                               case outcome of
                                 Inr result \<Rightarrow> Resolved result
                               | Inl err \<Rightarrow> Rejected (WorkError err))],
                           pendingCount := pendingCount s - 1\<rparr>"
  obtain s3 k where d: "drainLoop cfg now s2 = (s3, k)"
    by (cases "drainLoop cfg now s2")
  have w: "workSettled cfg now i outcome s = s3\<lparr>loops := (loops s3)[i := k]\<rparr>"
    using assms d by (simp add: workSettled_def s2_def)
  have i2: "i < length (loops s2)" using assms(1) by (simp add: s2_def)
  from backlog_resume[OF i2 d] drainLoop_backlog[OF d] assms(2)
  show ?thesis unfolding step.simps w by (simp add: s2_def backlog_def)
qed

lemma progress_sleep:
  assumes "i < length (loops s)" and "loops s ! i = AwaitSleep" and "queue s \<noteq> []"
    and "1 \<le> requestsPerSecond cfg"
  shows "backlog (step cfg s (SleepElapsed (lastResetTime s + 1000) i)) < backlog s"
proof -
  obtain s' k where d: "drainLoop cfg (lastResetTime s + 1000) s = (s', k)"
    by (cases "drainLoop cfg (lastResetTime s + 1000) s")
  have w: "sleepElapsed cfg (lastResetTime s + 1000) i s = s'\<lparr>loops := (loops s')[i := k]\<rparr>"
    using assms(1,2) d by (simp add: sleepElapsed_def)
  from backlog_resume[OF assms(1) d] drainLoop_backlog_reset[OF d assms(3,4) refl] assms(2)
  show ?thesis unfolding step.simps w by (simp add: backlog_def)
qed

lemma awaiting_cases:
  assumes "awaiting s \<noteq> []"
  shows "rejectTimers s \<noteq> []
         \<or> (\<exists>i item. i < length (loops s) \<and> loops s ! i = AwaitWork item)
         \<or> (queue s \<noteq> [] \<and> (\<forall>k \<in> set (loops s). k = AwaitSleep \<or> k = Returned))"
proof (cases "\<exists>i item. i < length (loops s) \<and> loops s ! i = AwaitWork item")
  case True
  then show ?thesis by simp
next
  case False
  have none: "\<forall>k \<in> set (loops s). k = AwaitSleep \<or> k = Returned"
  proof
    fix k assume "k \<in> set (loops s)"
    then obtain i where "i < length (loops s)" "loops s ! i = k" by (auto simp add: in_set_conv_nth)
    with False show "k = AwaitSleep \<or> k = Returned" by (cases k) auto
  qed
  then have "concat (map inFlight (loops s)) = []" by auto
  with assms none show ?thesis by (auto simp add: awaiting_def)
qed

lemma progress:
  assumes "liveInv s" and "1 \<le> requestsPerSecond cfg" and "awaiting s \<noteq> []"
  shows "\<exists>e. internal e \<and> backlog (step cfg s e) < backlog s"
  using awaiting_cases[OF assms(3)]
proof (elim disjE exE conjE)
  assume "rejectTimers s \<noteq> []"
  from progress_timer[OF this, of cfg] show ?thesis
    by (intro exI[of _ "RejectTimerFires (hd (rejectTimers s))"]) simp
next
  fix i item assume "i < length (loops s)" "loops s ! i = AwaitWork item"
  from progress_work[OF this, of cfg 0 "Inr []"] show ?thesis
    by (intro exI[of _ "WorkSettled 0 i (Inr [])"]) simp
next
  assume q: "queue s \<noteq> []" and sl: "\<forall>k \<in> set (loops s). k = AwaitSleep \<or> k = Returned"
  from assms(1) q have "list_ex (\<lambda>k. k \<noteq> Returned) (loops s)" by (simp add: liveInv_def)
  then obtain k where "k \<in> set (loops s)" "k \<noteq> Returned" by (auto simp add: list_ex_iff)
  with sl have "AwaitSleep \<in> set (loops s)" by auto
  then obtain i where i: "i < length (loops s)" "loops s ! i = AwaitSleep"
    by (auto simp add: in_set_conv_nth)
  from progress_sleep[OF i q assms(2)] show ?thesis
    by (intro exI[of _ "SleepElapsed (lastResetTime s + 1000) i"]) simp
qed

lemma drains:
  assumes "1 \<le> requestsPerSecond cfg"
  shows "liveInv s \<Longrightarrow> \<exists>evs. list_all internal evs \<and> awaiting (run cfg s evs) = []"
proof (induction "backlog s" arbitrary: s rule: less_induct)
  case less
  show ?case
  proof (cases "awaiting s = []")
    case True
    then show ?thesis by (intro exI[of _ "[]"]) simp
  next
    case False
    from progress[OF less.prems assms False]
    obtain e where e: "internal e" "backlog (step cfg s e) < backlog s" by blast
    from less.hyps[OF e(2) liveInv_step[OF less.prems]]
    obtain evs where "list_all internal evs" "awaiting (run cfg (step cfg s e) evs) = []" by blast
    with e(1) show ?thesis by (intro exI[of _ "e # evs"]) simp
  qed
qed

lemma promises_internal:
  "list_all internal evs \<Longrightarrow> promises (run cfg s evs) = promises s"
proof (induction evs arbitrary: s)
  case Nil
  show ?case by simp
next
  case (Cons e evs)
  then have "promises (step cfg s e) = promises s"
    by (cases e)
       (simp_all add: promises_rejectTimerFires promises_sleepElapsed promises_workSettled)
  with Cons show ?case by simp
qed

text \<open>
  C2. Every submitted unit has exactly one of its two callbacks called, exactly once.
  In every state the analyzer can reach, each promise created so far has either one call
  of one of its callbacks on record and no place where it still awaits, or no call yet and
  exactly one place where it awaits (its item queued, its analysis awaited, or its
  rejection timer pending); nothing is ever called for a promise that was not created.
  So no unit is called twice, and a unit rejected at admission, cleared from the queue or
  executed has, once that has happened, exactly one call.
  And no unit is left without its call: with a window limit of at least 1, from every
  state the analyzer can reach, what the event loop has pending (rejection timers,
  analyses, sleeps) can run, with nothing submitted or cleared meanwhile, to a state where
  nothing awaits and every promise created has exactly one call.
\<close>

theorem exactly_once_delivery:
  "count_list (map fst (calls (run cfg (initial t0) evs))) p
     + count_list (awaiting (run cfg (initial t0) evs)) p
   = (if p < promises (run cfg (initial t0) evs) then 1 else 0)
   \<and> (1 \<le> requestsPerSecond cfg \<longrightarrow>
        (\<exists>evs'. list_all internal evs'
           \<and> awaiting (run cfg (run cfg (initial t0) evs) evs') = []
           \<and> (\<forall>q. count_list (map fst (calls (run cfg (run cfg (initial t0) evs) evs'))) q
                    = (if q < promises (run cfg (initial t0) evs) then 1 else 0))))"
proof (intro conjI impI)
  let ?s = "run cfg (initial t0) evs"
  show "count_list (map fst (calls ?s)) p + count_list (awaiting ?s) p
          = (if p < promises ?s then 1 else 0)"
    using accounted_reachable[of cfg t0 evs]
    by (simp add: accounted_count[symmetric] count_upt del: mset_upt)
  assume "1 \<le> requestsPerSecond cfg"
  from drains[OF this liveInv_reachable, of cfg t0 evs]
  obtain evs' where e: "list_all internal evs'" "awaiting (run cfg ?s evs') = []" by blast
  have "\<forall>q. count_list (map fst (calls (run cfg ?s evs'))) q
              = (if q < promises ?s then 1 else 0)"
  proof
    fix q
    have "accounted (run cfg ?s evs') = mset [0..<promises (run cfg ?s evs')]"
      by (rule accounted_run) (rule accounted_reachable)
    then have "count_list (map fst (calls (run cfg ?s evs'))) q
                 + count_list (awaiting (run cfg ?s evs')) q
               = (if q < promises (run cfg ?s evs') then 1 else 0)"
      by (simp add: accounted_count[symmetric] count_upt del: mset_upt)
    with e show "count_list (map fst (calls (run cfg ?s evs'))) q
                   = (if q < promises ?s then 1 else 0)"
      by (simp add: promises_internal)
  qed
  with e show "\<exists>evs'. list_all internal evs'
           \<and> awaiting (run cfg ?s evs') = []
           \<and> (\<forall>q. count_list (map fst (calls (run cfg ?s evs'))) q
                    = (if q < promises ?s then 1 else 0))"
    by blast
qed

theorem exactly_once_delivery_witness:
  "1 \<le> requestsPerSecond cfgB
   \<and> calls (run cfgB (initial 0)
        [Enqueue 0 JNull 0 None ''x'', Enqueue 1 JNull 0 None ''y'', Enqueue 2 JNull 0 None ''z'',
         RejectTimerFires 1]) = [(1, Rejected QueueFullError)]
   \<and> awaiting (run cfgB (initial 0)
        [Enqueue 0 JNull 0 None ''x'', Enqueue 1 JNull 0 None ''y'', Enqueue 2 JNull 0 None ''z'',
         RejectTimerFires 1]) = [0, 2]
   \<and> (\<exists>evs'. list_all internal evs'
         \<and> awaiting (run cfgB (run cfgB (initial 0)
              [Enqueue 0 JNull 0 None ''x'', Enqueue 1 JNull 0 None ''y'',
               Enqueue 2 JNull 0 None ''z'', RejectTimerFires 1]) evs') = []
         \<and> (\<forall>q. count_list (map fst (calls (run cfgB (run cfgB (initial 0)
              [Enqueue 0 JNull 0 None ''x'', Enqueue 1 JNull 0 None ''y'',
               Enqueue 2 JNull 0 None ''z'', RejectTimerFires 1]) evs'))) q
                = (if q < 3 then 1 else 0)))"
proof -
  have p: "promises (run cfgB (initial 0)
        [Enqueue 0 JNull 0 None ''x'', Enqueue 1 JNull 0 None ''y'', Enqueue 2 JNull 0 None ''z'',
         RejectTimerFires 1]) = 3"
    by (simp add: cfgB_def run_defs)
  have r: "1 \<le> requestsPerSecond cfgB" by (simp add: cfgB_def)
  have c: "calls (run cfgB (initial 0)
        [Enqueue 0 JNull 0 None ''x'', Enqueue 1 JNull 0 None ''y'', Enqueue 2 JNull 0 None ''z'',
         RejectTimerFires 1]) = [(1, Rejected QueueFullError)]"
    and a: "awaiting (run cfgB (initial 0)
        [Enqueue 0 JNull 0 None ''x'', Enqueue 1 JNull 0 None ''y'', Enqueue 2 JNull 0 None ''z'',
         RejectTimerFires 1]) = [0, 2]"
    by (simp_all add: cfgB_def run_defs awaiting_def)
  from exactly_once_delivery[of cfgB 0
        "[Enqueue 0 JNull 0 None ''x'', Enqueue 1 JNull 0 None ''y'', Enqueue 2 JNull 0 None ''z'',
         RejectTimerFires 1]" 0] r c a
  show ?thesis unfolding p by blast
qed

section \<open>One drain loop, unless the queue is cleared while it runs\<close>

lemma liveLoops_alive: "liveLoops s = sum_list (map alive (loops s))"
proof -
  have "length (filter (\<lambda>k. k \<noteq> Returned) ks) = sum_list (map alive ks)" for ks
  proof (induction ks)
    case Nil
    show ?case by simp
  next
    case (Cons a ks)
    then show ?case by (cases a) simp_all
  qed
  then show ?thesis by (simp add: liveLoops_def)
qed

lemma alive_update:
  "i < length ks \<Longrightarrow>
     sum_list (map alive (ks[i := k])) + alive (ks ! i) = sum_list (map alive ks) + alive k"
proof (induction ks arbitrary: i)
  case Nil
  then show ?case by simp
next
  case (Cons a ks)
  then show ?case by (cases i) simp_all
qed

lemma oneLoop_resume:
  assumes "oneLoop s" and "i < length (loops s)" and "loops s ! i \<noteq> Returned"
    and "drainLoop cfg now s = (s', k)"
  shows "oneLoop (s'\<lparr>loops := (loops s')[i := k]\<rparr>)"
proof -
  from drainLoop_frame[OF assms(4)] have l: "loops s' = loops s" by simp
  from assms(3) have ai: "alive (loops s ! i) = 1" by (cases "loops s ! i") simp_all
  from alive_update[OF assms(2), of k] ai
  have u: "sum_list (map alive ((loops s)[i := k])) + 1 = liveLoops s + alive k"
    by (simp add: liveLoops_alive)
  have "loops s ! i \<in> set (loops s)" using assms(2) by simp
  then have "alive (loops s ! i) \<le> sum_list (map alive (loops s))"
    by (intro member_le_sum_list) simp_all
  with ai have "0 < liveLoops s" by (simp add: liveLoops_alive)
  with assms(1) have p: "processing s" and one: "liveLoops s = 1"
    by (auto simp add: oneLoop_def split: if_splits)
  from u one have u': "sum_list (map alive ((loops s)[i := k])) = alive k" by simp
  from drainLoop_live[OF assms(4)] show ?thesis
  proof
    assume "k = Returned \<and> queue s' = [] \<and> \<not> processing s'"
    with u' l show ?thesis by (simp add: oneLoop_def liveLoops_alive)
  next
    assume "k \<noteq> Returned \<and> processing s' = processing s"
    moreover then have "alive k = 1" by (cases k) simp_all
    ultimately show ?thesis using u' l p by (simp add: oneLoop_def liveLoops_alive)
  qed
qed

lemma oneLoop_processQueue: "oneLoop s \<Longrightarrow> oneLoop (processQueue cfg now s)"
proof (cases "processing s \<or> queue s = []")
  case True
  assume "oneLoop s"
  with True show ?thesis by (simp add: processQueue_def)
next
  case False
  assume o: "oneLoop s"
  obtain s' k where d: "drainLoop cfg now (s\<lparr>processing := True\<rparr>) = (s', k)"
    by (cases "drainLoop cfg now (s\<lparr>processing := True\<rparr>)")
  from False d have k: "k \<noteq> Returned" and p: "processing s'"
    by (auto simp: drainLoop_def Let_def split: list.splits if_splits)
  from drainLoop_frame[OF d] have l: "loops s' = loops s" by simp
  from o False have "liveLoops s = 0" by (simp add: oneLoop_def)
  moreover from k have "alive k = 1" by (cases k) simp_all
  ultimately show ?thesis using p l False d
    by (simp add: processQueue_def oneLoop_def liveLoops_alive)
qed

lemma oneLoop_step:
  assumes "oneLoop s" and "\<not> (e = Clear \<and> 0 < liveLoops s)"
  shows "oneLoop (step cfg s e)"
proof (cases e)
  case (Enqueue now dat prio ident generated)
  show ?thesis
  proof (cases "maxQueueSize cfg \<le> pendingCount s")
    case True
    with assms(1) Enqueue show ?thesis
      by (auto simp add: enqueue_def oneLoop_def liveLoops_alive split: if_splits)
  next
    case False
    then have adm: "pendingCount s < maxQueueSize cfg" by simp
    have "oneLoop (s\<lparr>queue := insertByPriority (newItem cfg now dat prio ident generated s) (queue s),
                      promises := Suc (promises s), pendingCount := pendingCount s + 1\<rparr>)"
      using assms(1) by (auto simp add: oneLoop_def liveLoops_alive split: if_splits)
    then show ?thesis
      unfolding Enqueue step.simps enqueue_admitted[OF adm] by (rule oneLoop_processQueue)
  qed
next
  case Clear
  with assms show ?thesis
    by (auto simp add: clear_def oneLoop_def liveLoops_alive split: if_splits)
next
  case (RejectTimerFires p)
  with assms(1) show ?thesis
    by (auto simp add: rejectTimerFires_def oneLoop_def liveLoops_alive split: if_splits)
next
  case (SleepElapsed now i)
  show ?thesis
  proof (cases "i < length (loops s) \<and> loops s ! i = AwaitSleep")
    case False
    with assms(1) SleepElapsed show ?thesis by (auto simp add: sleepElapsed_def)
  next
    case True
    obtain s' k where d: "drainLoop cfg now s = (s', k)" by (cases "drainLoop cfg now s")
    from oneLoop_resume[OF assms(1) _ _ d, of i] True d SleepElapsed show ?thesis
      by (simp add: sleepElapsed_def)
  qed
next
  case (WorkSettled now i outcome)
  show ?thesis
  proof (cases "i < length (loops s) \<and> (\<exists>item. loops s ! i = AwaitWork item)")
    case False
    with assms(1) WorkSettled show ?thesis by (simp add: workSettled_idle)
  next
    case True
    then obtain item where it: "loops s ! i = AwaitWork item" and i: "i < length (loops s)"
      by blast
    define s2 where "s2 = s\<lparr>calls := calls s @
                             [(promise item,
                               case outcome of
                                 Inr result \<Rightarrow> Resolved result
                               | Inl err \<Rightarrow> Rejected (WorkError err))],
                           pendingCount := pendingCount s - 1\<rparr>"
    obtain s3 k where d: "drainLoop cfg now s2 = (s3, k)"
      by (cases "drainLoop cfg now s2")
    have w: "workSettled cfg now i outcome s = s3\<lparr>loops := (loops s3)[i := k]\<rparr>"
      using i it d by (simp add: workSettled_def s2_def)
    have "oneLoop s2" using assms(1)
      by (auto simp add: oneLoop_def liveLoops_alive s2_def split: if_splits)
    from oneLoop_resume[OF this _ _ d, of i] i it show ?thesis
      unfolding WorkSettled step.simps w by (simp add: s2_def)
  qed
qed

lemma oneLoop_run:
  "oneLoop s \<Longrightarrow> \<not> clearedWhileDraining cfg s evs \<Longrightarrow> oneLoop (run cfg s evs)"
proof (induction evs arbitrary: s)
  case Nil
  then show ?case by simp
next
  case (Cons e evs)
  from Cons.prems have "oneLoop (step cfg s e)" by (simp add: oneLoop_step)
  with Cons.IH[of "step cfg s e"] Cons.prems show ?case by simp
qed

lemma one_drain_loop_without_clear:
  "\<not> clearedWhileDraining cfg (initial t0) evs \<Longrightarrow> liveLoops (run cfg (initial t0) evs) \<le> 1"
proof -
  assume a: "\<not> clearedWhileDraining cfg (initial t0) evs"
  have "oneLoop (initial t0)" by (simp add: oneLoop_def liveLoops_alive initial_def)
  from oneLoop_run[OF this a] show ?thesis by (simp add: oneLoop_def split: if_splits)
qed

text \<open>
  C7. At most one drain loop is active at a time, also for a submission that arrives after
  a \<open>clear()\<close> issued while a unit is executing. The code does not keep this: \<open>clear()\<close>
  sets \<open>processing\<close> to false while the activation of \<open>processQueue\<close> that awaits the
  analysis of the first unit is still alive, so the guard of \<open>processQueue\<close> lets the next
  \<open>enqueue\<close> start a second loop. With capacity 1, after \<open>enqueue\<close>, \<open>clear\<close>, \<open>enqueue\<close>
  two activations are alive and two units execute at once. (In the runs where \<open>clear()\<close> is
  not called while an activation is alive there is at most one, as the lemma above says.)
\<close>

theorem two_drain_loops_after_clear:
  "liveLoops (run cfgB (initial 0)
      [Enqueue 0 JNull 0 None ''x'', Clear, Enqueue 1 JNull 0 None ''y'']) = 2
   \<and> executing (run cfgB (initial 0)
      [Enqueue 0 JNull 0 None ''x'', Clear, Enqueue 1 JNull 0 None ''y'']) = 2
   \<and> map promise (queue (run cfgB (initial 0)
      [Enqueue 0 JNull 0 None ''x'', Clear, Enqueue 1 JNull 0 None ''y''])) = []
   \<and> pendingCount (run cfgB (initial 0)
      [Enqueue 0 JNull 0 None ''x'', Clear, Enqueue 1 JNull 0 None ''y'']) = 1"
  by (simp add: cfgB_def run_defs liveLoops_def executing_def)

end
